theory Spec2Isabelle
  imports Main "HOL-Library.AList"
begin

section \<open>The script \<open>tools/last_user_activity.py\<close>\<close>

text \<open>
  The script asks the platform for its rate limit, lists the members of a fixed list of
  organizations page by page, asks for the public events of every member once, and prints
  the members by the time of their last event. Everything it does to the outside is a
  \<open>GET\<close> on a URL or a \<open>print\<close>; both are recorded, in order, in a log.

  The platform is an oracle from URLs to responses. The three endpoints answer with JSON of
  three shapes, so the oracle has three typed parts, one per endpoint; each is asked with
  the URL the script builds. The fixed \<open>headers\<close> dictionary goes with every request
  and is not part of the model. Without the token in its environment the script exits
  before \<open>main\<close> is called; the model is of the runs in which the token is set.
\<close>

subsection \<open>Exceptions\<close>

datatype py_error = KeyError | ValueError | TypeError | OverflowError | OSError

subsection \<open>Strings\<close>

definition digit_char :: "nat \<Rightarrow> char" where
  "digit_char d = ''0123456789'' ! d"

text \<open>\<open>str(n)\<close> for a non-negative integer: its decimal digits.\<close>

fun str_nat :: "nat \<Rightarrow> string" where
  "str_nat n = (if n < 10 then [digit_char n] else str_nat (n div 10) @ [digit_char (n mod 10)])"

declare str_nat.simps [simp del]

definition str_int :: "int \<Rightarrow> string" where
  "str_int i = (if i < 0 then CHR ''-'' # str_nat (nat (- i)) else str_nat (nat i))"

text \<open>\<open>s.replace(old, new)\<close> where \<open>old\<close> is one character: every occurrence is replaced.\<close>

definition str_replace :: "char \<Rightarrow> string \<Rightarrow> string \<Rightarrow> string" where
  "str_replace old new s = concat (map (\<lambda>c. if c = old then new else [c]) s)"

text \<open>The format specification \<open><20\<close>: pad with spaces on the right up to the width.\<close>

definition ljust :: "nat \<Rightarrow> string \<Rightarrow> string" where
  "ljust width s = s @ replicate (width - length s) CHR '' ''"

fun join :: "string \<Rightarrow> string list \<Rightarrow> string" where
  "join sep [] = []"
| "join sep [x] = x"
| "join sep (x # y # ys) = x @ sep @ join sep (y # ys)"

subsection \<open>\<open>datetime\<close>\<close>

text \<open>
  A \<open>datetime\<close> object: its calendar fields and its \<open>tzinfo\<close>, which is absent (a naive
  value) or a fixed offset from UTC, in seconds.
\<close>

record datetime =
  year :: nat
  month :: nat
  day :: nat
  hour :: nat
  minute :: nat
  second :: nat
  microsecond :: nat
  tzinfo :: "int option"

definition is_leap :: "nat \<Rightarrow> bool" where
  "is_leap y = (y mod 4 = 0 \<and> (y mod 100 \<noteq> 0 \<or> y mod 400 = 0))"

definition days_in_month :: "nat \<Rightarrow> nat \<Rightarrow> nat" where
  "days_in_month y m =
     (if m = 2 \<and> is_leap y then 29
      else [31, 28, 31, 30, 31, 30, 31, 31, 30, 31, 30, 31] ! (m - 1))"

definition days_before_year :: "nat \<Rightarrow> int" where
  "days_before_year y =
     (let y1 = int y - 1 in y1 * 365 + y1 div 4 - y1 div 100 + y1 div 400)"

definition days_before_month :: "nat \<Rightarrow> nat \<Rightarrow> int" where
  "days_before_month y m = int (sum_list (map (days_in_month y) [1..<m]))"

definition toordinal :: "datetime \<Rightarrow> int" where
  "toordinal dt = days_before_year (year dt) + days_before_month (year dt) (month dt) + int (day dt)"

text \<open>The reading of the calendar fields, in microseconds since the start of year 1.\<close>

definition wall_micros :: "datetime \<Rightarrow> int" where
  "wall_micros dt =
     (((toordinal dt * 24 + int (hour dt)) * 60 + int (minute dt)) * 60 + int (second dt)) * 1000000
       + int (microsecond dt)"

text \<open>The instant an aware value denotes: its reading less its offset.\<close>

definition utc_micros :: "datetime \<Rightarrow> int" where
  "utc_micros dt = wall_micros dt - (case tzinfo dt of None \<Rightarrow> 0 | Some off \<Rightarrow> off * 1000000)"

definition aware :: "datetime \<Rightarrow> bool" where
  "aware dt = (tzinfo dt \<noteq> None)"

definition is_digit :: "char \<Rightarrow> bool" where
  "is_digit c = (c \<in> set ''0123456789'')"

definition digit_val :: "char \<Rightarrow> nat" where
  "digit_val c = length (takeWhile (\<lambda>d. d \<noteq> c) ''0123456789'')"

definition to_nat :: "string \<Rightarrow> nat" where
  "to_nat cs = foldl (\<lambda>n c. 10 * n + digit_val c) 0 cs"

text \<open>The shape \<open>YYYY-MM-DD?HH:MM:SS\<close>, where \<open>?\<close> is any one character.\<close>

definition iso_datetime_shape :: "string \<Rightarrow> bool" where
  "iso_datetime_shape s =
     (length s = 19
      \<and> list_all is_digit (take 4 s) \<and> s ! 4 = CHR ''-''
      \<and> list_all is_digit (take 2 (drop 5 s)) \<and> s ! 7 = CHR ''-''
      \<and> list_all is_digit (take 2 (drop 8 s))
      \<and> list_all is_digit (take 2 (drop 11 s)) \<and> s ! 13 = CHR '':''
      \<and> list_all is_digit (take 2 (drop 14 s)) \<and> s ! 16 = CHR '':''
      \<and> list_all is_digit (take 2 (drop 17 s)))"

text \<open>The shape \<open>+HH:MM\<close> or \<open>-HH:MM\<close>.\<close>

definition iso_offset_shape :: "string \<Rightarrow> bool" where
  "iso_offset_shape s =
     (length s = 6 \<and> (s ! 0 = CHR ''+'' \<or> s ! 0 = CHR ''-'')
      \<and> list_all is_digit (take 2 (drop 1 s)) \<and> s ! 3 = CHR '':''
      \<and> list_all is_digit (take 2 (drop 4 s)))"

definition parse_offset :: "string \<Rightarrow> int" where
  "parse_offset s =
     (if s ! 0 = CHR ''-'' then - 1 else 1)
       * (int (to_nat (take 2 (drop 1 s))) * 3600 + int (to_nat (take 2 (drop 4 s))) * 60)"

subsection \<open>The platform and the log\<close>

datatype 'a response = Response (status: int) (json: 'a)

text \<open>A member object, of which the script reads \<open>login\<close>; an event object, of which it
  reads \<open>created_at\<close>; the rate-limit object, of which it reads \<open>remaining\<close> and
  \<open>reset\<close> under \<open>resources.core\<close>.\<close>

datatype member = Member (login: string)

datatype event = Event (created_at: string)

datatype rate_data = RateData (remaining: int) (reset: int)

record session =
  get_rate :: "string \<Rightarrow> rate_data response"
  get_members :: "string \<Rightarrow> member list response"
  get_events :: "string \<Rightarrow> event list response"

datatype io = Get string | Print string

text \<open>
  What the run takes from its surroundings besides the platform. The clock, read in UTC and
  in local time (microseconds since the start of year 1). Three library functions, each of
  which gives a value or raises:
  \<^item> \<open>datetime.fromtimestamp\<close>, from seconds since the epoch to the local reading in
    microseconds; it raises for a timestamp outside the range of the library;
  \<^item> \<open>humanize.naturaltime\<close>, as a function of the difference between now and the time
    described, in microseconds (it describes a \<open>datetime\<close> by this difference, and a
    \<open>timedelta\<close> is this difference);
  \<^item> \<open>datetime.fromisoformat\<close> on the strings that \<open>fromisoformat\<close> below does not
    describe itself.
\<close>

record env =
  now_utc :: int
  now_local :: int
  fromtimestamp :: "int \<Rightarrow> py_error + int"
  naturaltime :: "int \<Rightarrow> py_error + string"
  fromisoformat_other :: "string \<Rightarrow> py_error + datetime"

text \<open>
  \<open>datetime.fromisoformat\<close> of the standard library. On the two shapes a timestamp of
  the platform can have once its \<open>Z\<close> is replaced, it is written out (as CPython 3.11
  behaves): \<open>YYYY-MM-DD?HH:MM:SS\<close> gives a naive value, the same followed by \<open>+HH:MM\<close>
  or \<open>-HH:MM\<close> gives an aware one, and a field out of its range, or an offset of a day or
  more, is a \<open>ValueError\<close>. On every other string it is the library function of the
  surroundings.
\<close>

definition fromisoformat :: "env \<Rightarrow> string \<Rightarrow> py_error + datetime" where
  "fromisoformat e dtstr =
     (let dt = take 19 dtstr; tz = drop 19 dtstr in
      if \<not> (iso_datetime_shape dt \<and> (tz = [] \<or> iso_offset_shape tz))
      then fromisoformat_other e dtstr
      else
        let y = to_nat (take 4 dt); mo = to_nat (take 2 (drop 5 dt)); d = to_nat (take 2 (drop 8 dt));
            h = to_nat (take 2 (drop 11 dt)); mi = to_nat (take 2 (drop 14 dt));
            s = to_nat (take 2 (drop 17 dt))
        in
          if \<not> (1 \<le> y \<and> 1 \<le> mo \<and> mo \<le> 12 \<and> 1 \<le> d \<and> d \<le> days_in_month y mo
                \<and> h < 24 \<and> mi < 60 \<and> s < 60) then Inl ValueError
          else if tz \<noteq> [] \<and> \<not> (\<bar>parse_offset tz\<bar> < 86400) then Inl ValueError
          else Inr \<lparr>year = y, month = mo, day = d, hour = h, minute = mi, second = s,
                    microsecond = 0,
                    tzinfo = (if tz = [] then None else Some (parse_offset tz))\<rparr>)"

subsection \<open>The configured organizations\<close>

definition orgs :: "string list" where
  "orgs =
     [''binder-examples'',
      ''binderhub-ci-repos'',
      ''ipython'',
      ''jupyter'',
      ''jupyter-book'',
      ''jupyter-governance'',
      ''jupyter-incubator'',
      ''jupyter-server'',
      ''jupyter-standards'',
      ''jupyter-widgets'',
      ''jupyterhub'',
      ''jupyterlab'',
      ''jupyter-xeus'',
      ''jupytercon'',
      ''voila-dashboards'',
      ''voila-gallery'']"

subsection \<open>\<open>get_org_members\<close>\<close>

definition members_url :: "string \<Rightarrow> nat \<Rightarrow> string" where
  "members_url org page =
     ''https://api.github.com/orgs/'' @ org @ ''/members?page='' @ str_nat page @ ''&per_page=100''"

definition members_error :: "string \<Rightarrow> int \<Rightarrow> string" where
  "members_error org st =
     ''[red]Error fetching members for '' @ org @ '': '' @ str_int st @ ''[/red]''"

text \<open>
  The loop \<open>for page in count(1)\<close>, from the page it is at, with the members and the log
  so far. It has no bound: against a platform that never answers with an error or an empty
  page it does not return, which is the value \<open>None\<close>.
\<close>

partial_function (option) members_loop ::
  "session \<Rightarrow> string \<Rightarrow> nat \<Rightarrow> member list \<Rightarrow> io list \<Rightarrow> (member list \<times> io list) option"
where
  "members_loop s org page members log =
     (let url = members_url org page;
          response = get_members s url;
          log1 = log @ [Get url]
      in
        if status response \<noteq> 200 then
          Some (members, log1 @ [Print (members_error org (status response))])
        else
          let page_members = json response in
            if page_members = [] then Some (members, log1)
            else members_loop s org (page + 1) (members @ page_members) log1)"

declare members_loop.simps [code]

text \<open>Page \<open>p\<close> of the organization answers with success and at least one member, so
  the loop goes on to the next page.\<close>

definition more_pages :: "session \<Rightarrow> string \<Rightarrow> nat \<Rightarrow> bool" where
  "more_pages s org p =
     (status (get_members s (members_url org p)) = 200
      \<and> json (get_members s (members_url org p)) \<noteq> [])"

definition get_org_members :: "session \<Rightarrow> string \<Rightarrow> (member list \<times> io list) option" where
  "get_org_members s org = members_loop s org 1 [] []"

subsection \<open>\<open>get_user_activity\<close>\<close>

definition events_url :: "string \<Rightarrow> string" where
  "events_url username = ''https://api.github.com/users/'' @ username @ ''/events/public''"

text \<open>The value returned, or the exception raised; the one request it makes is
  \<open>Get (events_url username)\<close>, whatever the response.\<close>

definition get_user_activity :: "env \<Rightarrow> session \<Rightarrow> string \<Rightarrow> py_error + datetime option" where
  "get_user_activity e s username =
     (let url = events_url username;
          response = get_events s url
      in
        if status response = 200 then
          let events = json response in
            if events \<noteq> [] then
              (case fromisoformat e (str_replace CHR ''Z'' ''+00:00'' (created_at (events ! 0))) of
                 Inl err \<Rightarrow> Inl err
               | Inr dt \<Rightarrow> Inr (Some dt))
            else Inr None
        else Inr None)"

subsection \<open>\<open>main\<close>\<close>

definition rate_limit_url :: string where
  "rate_limit_url = ''https://api.github.com/rate_limit''"

text \<open>
  The rate-limit check: the exception raised with the log up to it, or whether the run
  returns here and the log so far. \<open>datetime.fromtimestamp\<close> and
  \<open>humanize.naturaltime\<close> are called before the first line is printed.
\<close>

definition check_rate_limit ::
  "env \<Rightarrow> session \<Rightarrow> (py_error \<times> io list) + (bool \<times> io list)"
where
  "check_rate_limit e s =
     (let response = get_rate s rate_limit_url;
          log = [Get rate_limit_url]
      in
        if status response = 200 then
          let rate_data = json response;
              remaining = remaining rate_data
          in
            (case fromtimestamp e (reset rate_data) of
               Inl err \<Rightarrow> Inl (err, log)
             | Inr reset_time \<Rightarrow>
                 (case naturaltime e (now_local e - reset_time) of
                    Inl err \<Rightarrow> Inl (err, log)
                  | Inr reset_in \<Rightarrow>
                      let log = log @ [Print (''Rate limit remaining: '' @ str_int remaining),
                                       Print (''Rate limit resets '' @ reset_in)]
                      in
                        if remaining < 100 then
                          let log = log @ [Print (''[yellow]Warning: Low rate limit (''
                                                    @ str_int remaining @ '' remaining)[/yellow]'')]
                          in
                            if remaining < 10 then
                              Inr (True, log @ [Print ''[red]Aborting due to very low rate limit[/red]''])
                            else Inr (False, log)
                        else Inr (False, log)))
        else Inr (False, log))"

text \<open>
  \<open>all_members\<close> is a dictionary from logins to lists of organizations. A dictionary keeps
  its keys in the order of their first insertion, and the script iterates over it, so it is
  an association list: a new key goes to the end, an old key keeps its place.
\<close>

type_synonym members_dict = "(string \<times> string list) list"

text \<open>The body of \<open>for member in members\<close>.\<close>

definition add_member :: "string \<Rightarrow> members_dict \<Rightarrow> member \<Rightarrow> members_dict" where
  "add_member org all_members member =
     (let all_members1 =
            (if map_of all_members (login member) = None
             then AList.update (login member) [] all_members
             else all_members)
      in AList.map_entry (login member) (\<lambda>v. v @ [org]) all_members1)"

text \<open>The loop \<open>for org in orgs\<close>, over the organizations still to do.\<close>

fun all_members_loop ::
  "session \<Rightarrow> string list \<Rightarrow> members_dict \<Rightarrow> io list \<Rightarrow> (members_dict \<times> io list) option"
where
  "all_members_loop s [] all_members log = Some (all_members, log)"
| "all_members_loop s (org # rest) all_members log =
     (case get_org_members s org of
        None \<Rightarrow> None
      | Some (members, log1) \<Rightarrow>
          all_members_loop s rest (foldl (add_member org) all_members members) (log @ log1))"

text \<open>
  \<open>asyncio.gather\<close> without \<open>return_exceptions\<close>: the results in the order of the tasks,
  or an exception one of them raised. The platform is an oracle without state, so the order
  in which the requests reach it does not show; where several tasks raise, the model takes
  the first in the order of the tasks.
\<close>

fun gather :: "(py_error + 'a) list \<Rightarrow> py_error + 'a list" where
  "gather [] = Inr []"
| "gather (t # ts) =
     (case t of
        Inl e \<Rightarrow> Inl e
      | Inr r \<Rightarrow> (case gather ts of Inl e \<Rightarrow> Inl e | Inr rs \<Rightarrow> Inr (r # rs)))"

type_synonym activity = "string \<times> datetime \<times> string list"

text \<open>The loop over \<open>zip(tasks, results)\<close> that fills \<open>user_activities\<close>. A \<open>datetime\<close>
  is always true, so \<open>if last_activity\<close> tests for \<open>None\<close>.\<close>

fun user_activities_loop ::
  "members_dict \<Rightarrow> (string \<times> datetime option) list \<Rightarrow> activity list \<Rightarrow> py_error + activity list"
where
  "user_activities_loop all_members [] user_activities = Inr user_activities"
| "user_activities_loop all_members ((username, last_activity) # rest) user_activities =
     (case last_activity of
        None \<Rightarrow> user_activities_loop all_members rest user_activities
      | Some t \<Rightarrow>
          (case map_of all_members username of
             None \<Rightarrow> Inl KeyError
           | Some user_orgs \<Rightarrow>
               user_activities_loop all_members rest (user_activities @ [(username, t, user_orgs)])))"

text \<open>
  \<open>sorted(user_activities, key=lambda x: x[1], reverse=True)\<close>. Aware values compare by
  the instant they denote, naive values by their fields, and comparing one of each is a
  \<open>TypeError\<close>. The sort is stable, also with \<open>reverse\<close>: the list is reversed, sorted
  upwards, and reversed again.
\<close>

definition sorted_by_activity :: "activity list \<Rightarrow> py_error + activity list" where
  "sorted_by_activity user_activities =
     (if list_all (\<lambda>x. aware (fst (snd x))) user_activities then
        Inr (rev (sort_key (\<lambda>x. utc_micros (fst (snd x))) (rev user_activities)))
      else if list_all (\<lambda>x. \<not> aware (fst (snd x))) user_activities then
        Inr (rev (sort_key (\<lambda>x. wall_micros (fst (snd x))) (rev user_activities)))
      else Inl TypeError)"

text \<open>\<open>datetime.now(last_activity.tzinfo) - last_activity\<close>, in microseconds.\<close>

definition time_since :: "env \<Rightarrow> datetime \<Rightarrow> int" where
  "time_since e last_activity =
     (case tzinfo last_activity of
        None \<Rightarrow> now_local e - wall_micros last_activity
      | Some off \<Rightarrow> now_utc e - utc_micros last_activity)"

text \<open>The line printed for one entry, or the exception of \<open>humanize.naturaltime\<close>.\<close>

definition activity_line :: "env \<Rightarrow> activity \<Rightarrow> py_error + string" where
  "activity_line e x =
     (case x of (username, last_activity, user_orgs) \<Rightarrow>
        (case naturaltime e (time_since e last_activity) of
           Inl err \<Rightarrow> Inl err
         | Inr last_activity_ago \<Rightarrow>
             let orgs_str = join '', '' user_orgs
             in Inr (ljust 20 username @ '': Last activity '' @ last_activity_ago
                       @ '' in orgs: '' @ orgs_str)))"

text \<open>The last loop, over the sorted list: the log when it ends, or the exception raised
  with the log up to it.\<close>

fun print_activities :: "env \<Rightarrow> activity list \<Rightarrow> io list \<Rightarrow> (py_error \<times> io list) + io list" where
  "print_activities e [] log = Inr log"
| "print_activities e (x # rest) log =
     (case activity_line e x of
        Inl err \<Rightarrow> Inl (err, log)
      | Inr line \<Rightarrow> print_activities e rest (log @ [Print line]))"

text \<open>
  The part of \<open>main\<close> from \<open>tasks = []\<close> to the end of the loop over
  \<open>zip(tasks, results)\<close>: the value of \<open>user_activities\<close>, or the exception raised.
  A task is a coroutine, which runs when it is gathered. Each makes one request, so the
  requests of this part are \<open>Get (events_url username)\<close> for the keys of \<open>all_members\<close>.
\<close>

definition user_activities_of ::
  "env \<Rightarrow> session \<Rightarrow> members_dict \<Rightarrow> py_error + activity list"
where
  "user_activities_of e s all_members =
     (let tasks = map (\<lambda>username. (username, get_user_activity e s username)) (map fst all_members)
      in
        case gather (map snd tasks) of
          Inl err \<Rightarrow> Inl err
        | Inr results \<Rightarrow> user_activities_loop all_members (zip (map fst tasks) results) [])"

text \<open>
  Everything after the rate-limit check. The result is \<open>None\<close> when an enumeration does
  not return, \<open>Some (Inr log)\<close> when \<open>main\<close> returns, and \<open>Some (Inl (err, log))\<close>
  when the exception \<open>err\<close> leaves \<open>main\<close>. For an exception out of the tasks, \<open>log\<close>
  is the log before they were gathered: which of their requests were made before the
  exception is not determined by the source.
\<close>

definition enumerate_and_report ::
  "env \<Rightarrow> session \<Rightarrow> string list \<Rightarrow> io list \<Rightarrow> ((py_error \<times> io list) + io list) option"
where
  "enumerate_and_report e s organizations log =
     (case all_members_loop s organizations [] log of
        None \<Rightarrow> None
      | Some (all_members, log1) \<Rightarrow>
          (case user_activities_of e s all_members of
             Inl err \<Rightarrow> Some (Inl (err, log1))
           | Inr user_activities \<Rightarrow>
               let log2 = log1 @ map (\<lambda>x. Get (events_url (fst x))) all_members in
                 (case sorted_by_activity user_activities of
                    Inl err \<Rightarrow> Some (Inl (err, log2))
                  | Inr entries \<Rightarrow> Some (print_activities e entries log2))))"

definition main :: "env \<Rightarrow> session \<Rightarrow> ((py_error \<times> io list) + io list) option" where
  "main e s =
     (case check_rate_limit e s of
        Inl raised \<Rightarrow> Some (Inl raised)
      | Inr (True, log) \<Rightarrow> Some (Inr log)
      | Inr (False, log) \<Rightarrow> enumerate_and_report e s orgs log)"

subsection \<open>Notions used in the statements\<close>

text \<open>The whole enumeration, when page \<open>n\<close> is the first that is not a success with
  members: the members of the pages before it, and the requests for pages \<open>1\<close> to \<open>n\<close>.\<close>

definition stop_log :: "session \<Rightarrow> string \<Rightarrow> nat \<Rightarrow> io list" where
  "stop_log s org n =
     map (\<lambda>q. Get (members_url org q)) [1..<Suc n]
       @ (if status (get_members s (members_url org n)) \<noteq> 200
          then [Print (members_error org (status (get_members s (members_url org n))))] else [])"

text \<open>The organizations the mapping holds for a login: none when the login is no key.\<close>

definition orgs_of :: "members_dict \<Rightarrow> string \<Rightarrow> string list" where
  "orgs_of all_members u = (case map_of all_members u of None \<Rightarrow> [] | Some v \<Rightarrow> v)"

text \<open>
  Given the members enumerated for each organization, the organizations of a login in the
  order of the list of organizations, each as many times as the login occurs among the
  members of that organization.
\<close>

definition memberships :: "(string \<Rightarrow> member list) \<Rightarrow> string list \<Rightarrow> string \<Rightarrow> string list" where
  "memberships ms os u = concat (map (\<lambda>org. replicate (count_list (map login (ms org)) u) org) os)"

definition nonempty_entries :: "members_dict \<Rightarrow> bool" where
  "nonempty_entries all_members = (\<forall>x \<in> set all_members. snd x \<noteq> [])"

text \<open>
  The run passes the rate-limit check and returns with the log \<open>log\<close>, after the loop
  over the organizations has built the mapping \<open>all_members\<close>, the loop over the results
  has built the list \<open>user_activities\<close>, and the last loop has printed the lines of
  \<open>entries\<close>, the sorted list, in this order.
\<close>

definition report_run ::
  "env \<Rightarrow> session \<Rightarrow> io list \<Rightarrow> members_dict \<Rightarrow> activity list \<Rightarrow> activity list \<Rightarrow> bool"
where
  "report_run e s log all_members user_activities entries =
     (case check_rate_limit e s of
        Inl raised \<Rightarrow> False
      | Inr (True, log0) \<Rightarrow> False
      | Inr (False, log0) \<Rightarrow>
          (case all_members_loop s orgs [] log0 of
             None \<Rightarrow> False
           | Some (d, log1) \<Rightarrow>
               d = all_members
               \<and> user_activities_of e s all_members = Inr user_activities
               \<and> sorted_by_activity user_activities = Inr entries
               \<and> print_activities e entries
                     (log1 @ map (\<lambda>x. Get (events_url (fst x))) all_members) = Inr log))"

text \<open>
  The events of a username make its task return, and with no naive value: the request does
  not succeed, or the list is empty, or the first timestamp, with \<open>Z\<close> replaced, is read
  as an aware value.
\<close>

definition events_readable :: "env \<Rightarrow> session \<Rightarrow> string \<Rightarrow> bool" where
  "events_readable e s u =
     (let response = get_events s (events_url u) in
        if status response = 200 \<and> json response \<noteq> [] then
          (case fromisoformat e (str_replace CHR ''Z'' ''+00:00'' (created_at (json response ! 0))) of
             Inl err \<Rightarrow> False
           | Inr dt \<Rightarrow> aware dt)
        else True)"

text \<open>The URLs requested in a log, in order.\<close>

fun requests :: "io list \<Rightarrow> string list" where
  "requests [] = []"
| "requests (Get url # log) = url # requests log"
| "requests (Print t # log) = requests log"

text \<open>The log of a run that has ended, by returning or by an exception.\<close>

definition outcome_log :: "(py_error \<times> io list) + io list \<Rightarrow> io list" where
  "outcome_log out = (case out of Inl (err, log) \<Rightarrow> log | Inr log \<Rightarrow> log)"

text \<open>Two platforms answer a URL in the same way, whichever endpoint it is asked of.\<close>

definition same_responses :: "session \<Rightarrow> session \<Rightarrow> string \<Rightarrow> bool" where
  "same_responses s s' url =
     (get_rate s' url = get_rate s url
      \<and> get_members s' url = get_members s url
      \<and> get_events s' url = get_events s url)"

subsection \<open>Sessions for the examples\<close>

definition demo_session :: session where
  "demo_session =
     \<lparr>get_rate = (\<lambda>url. Response 200 (RateData 4990 1709403800)),
      get_members = (\<lambda>url.
         if url = members_url ''ipython'' 1 then Response 200 [Member ''alice'', Member ''bob'']
         else if url = members_url ''ipython'' 2 then Response 200 [Member ''carol'']
         else if url = members_url ''jupyter'' 1 then Response 200 [Member ''bob'', Member ''dave'']
         else if url = members_url ''jupyterhub'' 1 then Response 200 [Member ''erin'']
         else if url = members_url ''jupyterhub'' 2 then Response 503 []
         else Response 200 []),
      get_events = (\<lambda>url.
         if url = events_url ''alice'' then Response 200 []
         else if url = events_url ''bob'' then
           Response 200 [Event ''2024-01-02T03:04:05Z'', Event ''2024-02-20T10:00:00Z'']
         else if url = events_url ''dave'' then Response 200 [Event ''2024-03-01T00:00:00Z'']
         else if url = events_url ''erin'' then Response 200 [Event ''2024-01-02T03:04:05Z'']
         else Response 404 [])\<rparr>"

text \<open>Surroundings one hour east of UTC, shortly after the start of 2 March 2024, with a
  library that knows no year beyond 9999.\<close>

definition demo_env :: env where
  "demo_env =
     \<lparr>now_utc = 63845000000000000, now_local = 63845003600000000,
      fromtimestamp = (\<lambda>t.
         if 0 \<le> t \<and> t < 253402297200 then Inr ((t + 62135600400) * 1000000)
         else Inl ValueError),
      naturaltime = (\<lambda>delta.
         Inr (if delta < 0 then str_int (- delta div 60000000) @ '' minutes from now''
              else str_int (delta div 86400000000) @ '' days ago'')),
      fromisoformat_other = (\<lambda>dtstr. Inl ValueError)\<rparr>"

text \<open>A platform that lists one login twice on a page.\<close>

definition dup_session :: session where
  "dup_session =
     \<lparr>get_rate = (\<lambda>url. Response 200 (RateData 4990 1700000000)),
      get_members = (\<lambda>url.
         if url = members_url ''ipython'' 1 then Response 200 [Member ''bob'', Member ''bob'']
         else if url = members_url ''jupyter'' 1 then Response 200 [Member ''bob'']
         else Response 200 []),
      get_events = (\<lambda>url. Response 200 [])\<rparr>"

text \<open>The same platform when the quota is nearly used up, when in addition the reset time
  is the start of the year 10000, when the rate-limit endpoint fails, when it answers
  differently at a URL the run never asks for, and when the timestamp of an event has no
  \<open>Z\<close>.\<close>

definition low_quota_session :: session where
  "low_quota_session =
     demo_session\<lparr>get_rate := (\<lambda>url. Response 200 (RateData 5 1709403800))\<rparr>"

definition far_reset_session :: session where
  "far_reset_session =
     demo_session\<lparr>get_rate := (\<lambda>url. Response 200 (RateData 5 253402300800))\<rparr>"

definition naive_session :: session where
  "naive_session =
     demo_session\<lparr>get_events := (\<lambda>url. Response 200 [Event ''2024-01-02T03:04:05''])\<rparr>"

definition rate_down_session :: session where
  "rate_down_session =
     demo_session\<lparr>get_rate := (\<lambda>url. Response 503 (RateData 0 0))\<rparr>"

definition other_session :: session where
  "other_session =
     demo_session\<lparr>get_members := (\<lambda>url.
        if url = members_url ''ipython'' 4 then Response 200 [Member ''zed'']
        else get_members demo_session url)\<rparr>"

text \<open>What the run against \<open>demo_session\<close> logs, builds and prints.\<close>

definition demo_log :: "io list" where
  "demo_log =
     [Get ''https://api.github.com/rate_limit'',
      Print ''Rate limit remaining: 4990'',
      Print ''Rate limit resets 10 minutes from now'',
      Get ''https://api.github.com/orgs/binder-examples/members?page=1&per_page=100'',
      Get ''https://api.github.com/orgs/binderhub-ci-repos/members?page=1&per_page=100'',
      Get ''https://api.github.com/orgs/ipython/members?page=1&per_page=100'',
      Get ''https://api.github.com/orgs/ipython/members?page=2&per_page=100'',
      Get ''https://api.github.com/orgs/ipython/members?page=3&per_page=100'',
      Get ''https://api.github.com/orgs/jupyter/members?page=1&per_page=100'',
      Get ''https://api.github.com/orgs/jupyter/members?page=2&per_page=100'',
      Get ''https://api.github.com/orgs/jupyter-book/members?page=1&per_page=100'',
      Get ''https://api.github.com/orgs/jupyter-governance/members?page=1&per_page=100'',
      Get ''https://api.github.com/orgs/jupyter-incubator/members?page=1&per_page=100'',
      Get ''https://api.github.com/orgs/jupyter-server/members?page=1&per_page=100'',
      Get ''https://api.github.com/orgs/jupyter-standards/members?page=1&per_page=100'',
      Get ''https://api.github.com/orgs/jupyter-widgets/members?page=1&per_page=100'',
      Get ''https://api.github.com/orgs/jupyterhub/members?page=1&per_page=100'',
      Get ''https://api.github.com/orgs/jupyterhub/members?page=2&per_page=100'',
      Print ''[red]Error fetching members for jupyterhub: 503[/red]'',
      Get ''https://api.github.com/orgs/jupyterlab/members?page=1&per_page=100'',
      Get ''https://api.github.com/orgs/jupyter-xeus/members?page=1&per_page=100'',
      Get ''https://api.github.com/orgs/jupytercon/members?page=1&per_page=100'',
      Get ''https://api.github.com/orgs/voila-dashboards/members?page=1&per_page=100'',
      Get ''https://api.github.com/orgs/voila-gallery/members?page=1&per_page=100'',
      Get ''https://api.github.com/users/alice/events/public'',
      Get ''https://api.github.com/users/bob/events/public'',
      Get ''https://api.github.com/users/carol/events/public'',
      Get ''https://api.github.com/users/dave/events/public'',
      Get ''https://api.github.com/users/erin/events/public'',
      Print ''dave                : Last activity 0 days ago in orgs: jupyter'',
      Print ''bob                 : Last activity 59 days ago in orgs: ipython, jupyter'',
      Print ''erin                : Last activity 59 days ago in orgs: jupyterhub'']"

definition demo_members :: members_dict where
  "demo_members =
     [(''alice'', [''ipython'']), (''bob'', [''ipython'', ''jupyter'']),
      (''carol'', [''ipython'']), (''dave'', [''jupyter'']), (''erin'', [''jupyterhub''])]"

definition utc_datetime :: "nat \<Rightarrow> nat \<Rightarrow> nat \<Rightarrow> nat \<Rightarrow> nat \<Rightarrow> nat \<Rightarrow> datetime" where
  "utc_datetime y mo d h mi sec =
     \<lparr>year = y, month = mo, day = d, hour = h, minute = mi, second = sec, microsecond = 0,
      tzinfo = Some 0\<rparr>"

definition demo_activities :: "activity list" where
  "demo_activities =
     [(''bob'', utc_datetime 2024 1 2 3 4 5, [''ipython'', ''jupyter'']),
      (''dave'', utc_datetime 2024 3 1 0 0 0, [''jupyter'']),
      (''erin'', utc_datetime 2024 1 2 3 4 5, [''jupyterhub''])]"

definition demo_entries :: "activity list" where
  "demo_entries =
     [(''dave'', utc_datetime 2024 3 1 0 0 0, [''jupyter'']),
      (''bob'', utc_datetime 2024 1 2 3 4 5, [''ipython'', ''jupyter'']),
      (''erin'', utc_datetime 2024 1 2 3 4 5, [''jupyterhub''])]"

section \<open>Properties\<close>

subsection \<open>The pagination loop\<close>

lemma members_loop_error:
  "status (get_members s (members_url org p)) \<noteq> 200 \<Longrightarrow>
   members_loop s org p ms lg =
     Some (ms, lg @ [Get (members_url org p),
                     Print (members_error org (status (get_members s (members_url org p))))])"
  by (subst members_loop.simps) (simp add: Let_def)

lemma members_loop_empty:
  "status (get_members s (members_url org p)) = 200 \<Longrightarrow>
   json (get_members s (members_url org p)) = [] \<Longrightarrow>
   members_loop s org p ms lg = Some (ms, lg @ [Get (members_url org p)])"
  by (subst members_loop.simps) (simp add: Let_def)

lemma members_loop_step:
  "more_pages s org p \<Longrightarrow>
   members_loop s org p ms lg =
     members_loop s org (Suc p) (ms @ json (get_members s (members_url org p)))
       (lg @ [Get (members_url org p)])"
  by (subst members_loop.simps) (simp add: Let_def more_pages_def)

lemma members_loop_run:
  "(\<forall>q. p \<le> q \<and> q < p + k \<longrightarrow> more_pages s org q) \<Longrightarrow>
   members_loop s org p ms lg =
     members_loop s org (p + k)
       (ms @ concat (map (\<lambda>q. json (get_members s (members_url org q))) [p..<p + k]))
       (lg @ map (\<lambda>q. Get (members_url org q)) [p..<p + k])"
proof (induction k arbitrary: p ms lg)
  case 0
  then show ?case by simp
next
  case (Suc k)
  have here: "more_pages s org p"
    using Suc.prems by auto
  have rest: "\<forall>q. Suc p \<le> q \<and> q < Suc p + k \<longrightarrow> more_pages s org q"
    using Suc.prems by auto
  have upt: "[p..<Suc (p + k)] = p # [Suc p..<Suc (p + k)]"
    by (simp add: upt_conv_Cons)
  have "members_loop s org p ms lg =
      members_loop s org (Suc p) (ms @ json (get_members s (members_url org p)))
        (lg @ [Get (members_url org p)])"
    using here by (rule members_loop_step)
  also have "\<dots> = members_loop s org (Suc p + k)
       ((ms @ json (get_members s (members_url org p)))
          @ concat (map (\<lambda>q. json (get_members s (members_url org q))) [Suc p..<Suc p + k]))
       ((lg @ [Get (members_url org p)]) @ map (\<lambda>q. Get (members_url org q)) [Suc p..<Suc p + k])"
    by (rule Suc.IH [OF rest])
  finally show ?case
    by (simp add: upt del: upt_Suc)
qed

lemma members_loop_SomeD:
  assumes "members_loop s org p ms lg = Some y"
  shows "\<exists>k. (\<forall>q. p \<le> q \<and> q < p + k \<longrightarrow> more_pages s org q) \<and> \<not> more_pages s org (p + k)"
proof (rule members_loop.raw_induct
    [where P = "\<lambda>s org p ms lg y. \<exists>k. (\<forall>q. p \<le> q \<and> q < p + k \<longrightarrow> more_pages s org q)
                                         \<and> \<not> more_pages s org (p + k)", OF _ assms])
  fix loop s org p ms lg y
  assume IH: "\<And>s org p ms lg y. loop s org p ms lg = Some y \<Longrightarrow>
      \<exists>k. (\<forall>q. p \<le> q \<and> q < p + k \<longrightarrow> more_pages s org q) \<and> \<not> more_pages s org (p + k)"
    and body: "(let url = members_url org p; response = get_members s url; log1 = lg @ [Get url]
      in if status response \<noteq> 200
         then Some (ms, log1 @ [Print (members_error org (status response))])
         else let page_members = json response
              in if page_members = [] then Some (ms, log1)
                 else loop s org (p + 1) (ms @ page_members) log1) = Some y"
  show "\<exists>k. (\<forall>q. p \<le> q \<and> q < p + k \<longrightarrow> more_pages s org q) \<and> \<not> more_pages s org (p + k)"
  proof (cases "more_pages s org p")
    case False
    then have "(\<forall>q. p \<le> q \<and> q < p + 0 \<longrightarrow> more_pages s org q) \<and> \<not> more_pages s org (p + 0)"
      by auto
    then show ?thesis by (rule exI)
  next
    case True
    with body have "loop s org (p + 1) (ms @ json (get_members s (members_url org p)))
        (lg @ [Get (members_url org p)]) = Some y"
      by (simp add: Let_def more_pages_def)
    from IH [OF this] obtain k where
      k: "\<forall>q. p + 1 \<le> q \<and> q < p + 1 + k \<longrightarrow> more_pages s org q"
         "\<not> more_pages s org (p + 1 + k)"
      by (elim exE conjE)
    have "more_pages s org q" if q: "p \<le> q \<and> q < p + Suc k" for q
    proof (cases "q = p")
      case True with \<open>more_pages s org p\<close> show ?thesis by simp
    next
      case False
      with q have "p + 1 \<le> q \<and> q < p + 1 + k" by arith
      with k(1) show ?thesis by simp
    qed
    moreover have "\<not> more_pages s org (p + Suc k)"
      using k(2) by simp
    ultimately have "(\<forall>q. p \<le> q \<and> q < p + Suc k \<longrightarrow> more_pages s org q) \<and> \<not> more_pages s org (p + Suc k)"
      by simp
    then show ?thesis by (rule exI)
  qed
qed

lemma get_org_members_stop:
  assumes "1 \<le> n" and "\<forall>q. 1 \<le> q \<and> q < n \<longrightarrow> more_pages s org q" and "\<not> more_pages s org n"
  shows "get_org_members s org =
     Some (concat (map (\<lambda>q. json (get_members s (members_url org q))) [1..<n]), stop_log s org n)"
proof -
  obtain k where n: "n = 1 + k"
    using assms(1) by (auto simp: le_iff_add)
  have "\<forall>q. 1 \<le> q \<and> q < 1 + k \<longrightarrow> more_pages s org q"
    using assms(2) unfolding n .
  then have run: "members_loop s org 1 [] [] =
     members_loop s org (1 + k)
       ([] @ concat (map (\<lambda>q. json (get_members s (members_url org q))) [1..<1 + k]))
       ([] @ map (\<lambda>q. Get (members_url org q)) [1..<1 + k])"
    by (rule members_loop_run)
  show ?thesis
  proof (cases "status (get_members s (members_url org n)) = 200")
    case True
    with assms(3) have "json (get_members s (members_url org n)) = []"
      by (simp add: more_pages_def)
    with True show ?thesis
      unfolding get_org_members_def run unfolding n
      by (simp add: members_loop_empty stop_log_def)
  next
    case False
    then show ?thesis
      unfolding get_org_members_def run unfolding n
      by (simp add: members_loop_error stop_log_def)
  qed
qed

lemma get_org_members_SomeD:
  assumes "get_org_members s org = Some y"
  shows "\<exists>n. 1 \<le> n \<and> (\<forall>q. 1 \<le> q \<and> q < n \<longrightarrow> more_pages s org q) \<and> \<not> more_pages s org n"
proof -
  from assms obtain k where
    "\<forall>q. 1 \<le> q \<and> q < 1 + k \<longrightarrow> more_pages s org q" "\<not> more_pages s org (1 + k)"
    unfolding get_org_members_def by (blast dest: members_loop_SomeD)
  then have "1 \<le> 1 + k \<and> (\<forall>q. 1 \<le> q \<and> q < 1 + k \<longrightarrow> more_pages s org q) \<and> \<not> more_pages s org (1 + k)"
    by simp
  then show ?thesis by (rule exI)
qed

subsection \<open>The membership mapping\<close>

lemma map_of_add_member:
  "map_of (add_member org d m) = (map_of d)(login m \<mapsto> orgs_of d (login m) @ [org])"
  by (cases "map_of d (login m)")
     (auto simp: add_member_def orgs_of_def AList.map_of_map_entry AList.update_conv')

lemma orgs_of_add_member:
  "orgs_of (add_member org d m) u = (if u = login m then orgs_of d u @ [org] else orgs_of d u)"
  by (simp add: orgs_of_def [of "add_member org d m"] map_of_add_member) (simp add: orgs_of_def)

lemma distinct_add_member:
  "distinct (map fst d) \<Longrightarrow> distinct (map fst (add_member org d m))"
  by (simp add: add_member_def AList.distinct_map_entry AList.distinct_update)

lemma keys_add_member:
  "fst ` set (add_member org d m) = insert (login m) (fst ` set d)"
  by (auto simp: add_member_def AList.dom_map_entry AList.dom_update map_of_eq_None_iff)

lemma set_map_entry_subset:
  "x \<in> set (AList.map_entry k f d) \<Longrightarrow> x \<in> set d \<or> (\<exists>v. (k, v) \<in> set d \<and> x = (k, f v))"
  by (induction d) (auto split: if_splits)

lemma update_absent:
  "k \<notin> fst ` set d \<Longrightarrow> AList.update k v d = d @ [(k, v)]"
  by (induction d) auto

lemma map_entry_append_absent:
  "k \<notin> fst ` set d \<Longrightarrow> AList.map_entry k f (d @ r) = d @ AList.map_entry k f r"
  by (induction d) auto

lemma add_member_absent:
  assumes "map_of d (login m) = None"
  shows "add_member org d m = d @ [(login m, [org])]"
proof -
  have "login m \<notin> fst ` set d"
    using assms by (simp add: map_of_eq_None_iff)
  then show ?thesis
    using assms by (simp add: add_member_def update_absent map_entry_append_absent)
qed

lemma add_member_present:
  assumes "map_of d (login m) \<noteq> None"
  shows "add_member org d m = AList.map_entry (login m) (\<lambda>v. v @ [org]) d"
  using assms by (auto simp: add_member_def)

lemma nonempty_add_member:
  assumes "nonempty_entries d"
  shows "nonempty_entries (add_member org d m)"
proof (cases "map_of d (login m) = None")
  case True
  then show ?thesis
    using assms by (simp add: add_member_absent nonempty_entries_def)
next
  case False
  then show ?thesis
    using assms unfolding nonempty_entries_def add_member_present [OF False]
    by (auto dest!: set_map_entry_subset)
qed

lemma count_list_distinct:
  "distinct xs \<Longrightarrow> count_list xs x \<le> 1"
  by (induction xs) auto

lemma orgs_of_foldl_add_member:
  "orgs_of (foldl (add_member org) d ms) u
     = orgs_of d u @ replicate (count_list (map login ms) u) org"
  by (induction ms arbitrary: d) (auto simp: orgs_of_add_member replicate_app_Cons_same)

lemma distinct_foldl_add_member:
  "distinct (map fst d) \<Longrightarrow> distinct (map fst (foldl (add_member org) d ms))"
  by (induction ms arbitrary: d) (simp_all add: distinct_add_member)

lemma keys_foldl_add_member:
  "fst ` set (foldl (add_member org) d ms) = fst ` set d \<union> login ` set ms"
  by (induction ms arbitrary: d) (auto simp: keys_add_member)

lemma nonempty_foldl_add_member:
  "nonempty_entries d \<Longrightarrow> nonempty_entries (foldl (add_member org) d ms)"
  by (induction ms arbitrary: d) (simp_all add: nonempty_add_member)

lemma memberships_Cons:
  "memberships ms (org # os) u = replicate (count_list (map login (ms org)) u) org @ memberships ms os u"
  by (simp add: memberships_def)

lemma set_memberships:
  "set (memberships ms os u) = {org \<in> set os. u \<in> login ` set (ms org)}"
  by (induction os) (auto simp: memberships_def set_replicate_conv_if count_list_0_iff)

lemma distinct_memberships:
  assumes "distinct os" and "\<forall>org \<in> set os. distinct (map login (ms org))"
  shows "distinct (memberships ms os u)"
  using assms
proof (induction os)
  case Nil
  then show ?case by (simp add: memberships_def)
next
  case (Cons org os)
  have "count_list (map login (ms org)) u \<le> 1"
    using Cons.prems(2) count_list_distinct [of "map login (ms org)" u] by simp
  then have "replicate (count_list (map login (ms org)) u) org = []
      \<or> replicate (count_list (map login (ms org)) u) org = [org]"
    by (cases "count_list (map login (ms org)) u") auto
  moreover have "org \<notin> set (memberships ms os u)"
    using Cons.prems(1) by (simp add: set_memberships)
  moreover have "distinct (memberships ms os u)"
    using Cons by simp
  ultimately show ?case
    by (auto simp: memberships_Cons)
qed

lemma all_members_loop_Some:
  assumes "\<forall>org \<in> set os. get_org_members s org = Some (ms org, lg org)"
  shows "\<exists>d'. all_members_loop s os d log = Some (d', log @ concat (map lg os))
            \<and> (\<forall>u. orgs_of d' u = orgs_of d u @ memberships ms os u)
            \<and> (distinct (map fst d) \<longrightarrow> distinct (map fst d'))
            \<and> (nonempty_entries d \<longrightarrow> nonempty_entries d')
            \<and> fst ` set d' = fst ` set d \<union> (\<Union>org \<in> set os. login ` set (ms org))"
  using assms
proof (induction os arbitrary: d log)
  case Nil
  then show ?case by (simp add: memberships_def)
next
  case (Cons org os)
  let ?d1 = "foldl (add_member org) d (ms org)"
  have here: "get_org_members s org = Some (ms org, lg org)"
    using Cons.prems by simp
  have rest: "\<forall>org \<in> set os. get_org_members s org = Some (ms org, lg org)"
    using Cons.prems by simp
  from Cons.IH [OF rest, of ?d1 "log @ lg org"] obtain d' where
    d': "all_members_loop s os ?d1 (log @ lg org) = Some (d', (log @ lg org) @ concat (map lg os))"
        "\<forall>u. orgs_of d' u = orgs_of ?d1 u @ memberships ms os u"
        "distinct (map fst ?d1) \<longrightarrow> distinct (map fst d')"
        "nonempty_entries ?d1 \<longrightarrow> nonempty_entries d'"
        "fst ` set d' = fst ` set ?d1 \<union> (\<Union>org \<in> set os. login ` set (ms org))"
    by (elim exE conjE)
  have "all_members_loop s (org # os) d log = Some (d', log @ concat (map lg (org # os)))"
    using here d'(1) by simp
  moreover have "\<forall>u. orgs_of d' u = orgs_of d u @ memberships ms (org # os) u"
    using d'(2) by (simp add: orgs_of_foldl_add_member memberships_Cons)
  moreover have "distinct (map fst d) \<longrightarrow> distinct (map fst d')"
    using d'(3) by (simp add: distinct_foldl_add_member)
  moreover have "nonempty_entries d \<longrightarrow> nonempty_entries d'"
    using d'(4) by (simp add: nonempty_foldl_add_member)
  moreover have "fst ` set d' = fst ` set d \<union> (\<Union>org \<in> set (org # os). login ` set (ms org))"
    using d'(5) by (auto simp: keys_foldl_add_member)
  ultimately show ?case by blast
qed

lemma map_of_nonempty_entries:
  assumes "nonempty_entries d"
  shows "map_of d u = (if orgs_of d u = [] then None else Some (orgs_of d u))"
proof (cases "map_of d u")
  case None
  then show ?thesis by (simp add: orgs_of_def)
next
  case (Some v)
  then have "(u, v) \<in> set d" by (rule map_of_SomeD)
  with assms have "v \<noteq> []" by (auto simp: nonempty_entries_def)
  with Some show ?thesis by (simp add: orgs_of_def)
qed

subsection \<open>Claims about the enumeration of one organization\<close>

text \<open>
  C2. When pages \<open>1\<close> to \<open>n - 1\<close> of an organization answer with success and members
  and page \<open>n\<close> answers with success and the empty list, the enumerator returns the
  members of pages \<open>1\<close> to \<open>n - 1\<close> in order, and it has requested exactly the pages
  \<open>1\<close> to \<open>n\<close>, in order, each with \<open>per_page=100\<close>: it starts at page 1 and
  stops at the first empty page. This holds for any number of pages, so also for more than
  one.
\<close>

theorem get_org_members_all_pages:
  assumes "1 \<le> n"
    and "\<forall>p. 1 \<le> p \<and> p < n \<longrightarrow> more_pages s org p"
    and "status (get_members s (members_url org n)) = 200"
    and "json (get_members s (members_url org n)) = []"
  shows "get_org_members s org =
     Some (concat (map (\<lambda>p. json (get_members s (members_url org p))) [1..<n]),
           map (\<lambda>p. Get (''https://api.github.com/orgs/'' @ org @ ''/members?page='' @ str_nat p
                           @ ''&per_page=100'')) [1..<Suc n])"
proof -
  have "\<not> more_pages s org n"
    using assms(4) by (simp add: more_pages_def)
  with assms(1,2) have "get_org_members s org =
     Some (concat (map (\<lambda>q. json (get_members s (members_url org q))) [1..<n]), stop_log s org n)"
    by (rule get_org_members_stop)
  moreover have "stop_log s org n =
     map (\<lambda>p. Get (''https://api.github.com/orgs/'' @ org @ ''/members?page='' @ str_nat p
                           @ ''&per_page=100'')) [1..<Suc n]"
    using assms(3) unfolding stop_log_def members_url_def by simp
  ultimately show ?thesis by simp
qed

lemma demo_ipython_pages:
  "\<forall>p. 1 \<le> p \<and> p < (3::nat) \<longrightarrow> more_pages demo_session ''ipython'' p"
proof (intro allI impI)
  fix p :: nat
  assume "1 \<le> p \<and> p < 3"
  then have "p = 1 \<or> p = 2" by arith
  moreover have "more_pages demo_session ''ipython'' 1" by code_simp
  moreover have "more_pages demo_session ''ipython'' 2" by code_simp
  ultimately show "more_pages demo_session ''ipython'' p" by auto
qed

theorem get_org_members_all_pages_witness:
  "get_org_members demo_session ''ipython'' =
     Some ([Member ''alice'', Member ''bob'', Member ''carol''],
           [Get ''https://api.github.com/orgs/ipython/members?page=1&per_page=100'',
            Get ''https://api.github.com/orgs/ipython/members?page=2&per_page=100'',
            Get ''https://api.github.com/orgs/ipython/members?page=3&per_page=100''])"
proof -
  have a: "(1::nat) \<le> 3" by simp
  have c: "status (get_members demo_session (members_url ''ipython'' 3)) = 200" by code_simp
  have d: "json (get_members demo_session (members_url ''ipython'' 3)) = []" by code_simp
  have e: "concat (map (\<lambda>p. json (get_members demo_session (members_url ''ipython'' p))) [1..<3])
      = [Member ''alice'', Member ''bob'', Member ''carol'']" by code_simp
  have f: "map (\<lambda>p. Get (''https://api.github.com/orgs/'' @ ''ipython'' @ ''/members?page='' @ str_nat p
                           @ ''&per_page=100'')) [1..<Suc 3] =
           [Get ''https://api.github.com/orgs/ipython/members?page=1&per_page=100'',
            Get ''https://api.github.com/orgs/ipython/members?page=2&per_page=100'',
            Get ''https://api.github.com/orgs/ipython/members?page=3&per_page=100'']" by code_simp
  show ?thesis
    using get_org_members_all_pages [OF a demo_ipython_pages c d] unfolding e f .
qed

text \<open>
  C4. When pages \<open>1\<close> to \<open>n - 1\<close> of an organization answer with success and members
  and page \<open>n\<close> answers with another status, the enumerator stops there and returns, as
  an ordinary value, exactly the members of pages \<open>1\<close> to \<open>n - 1\<close>; the loop over the
  organizations adds them to the mapping and goes on with the organizations that follow.
\<close>

theorem get_org_members_error_page:
  assumes "1 \<le> n"
    and "\<forall>p. 1 \<le> p \<and> p < n \<longrightarrow> more_pages s org p"
    and "status (get_members s (members_url org n)) \<noteq> 200"
  shows "get_org_members s org =
           Some (concat (map (\<lambda>p. json (get_members s (members_url org p))) [1..<n]),
                 map (\<lambda>p. Get (members_url org p)) [1..<Suc n]
                   @ [Print (members_error org (status (get_members s (members_url org n))))])
         \<and> all_members_loop s (org # rest) all_members log =
             all_members_loop s rest
               (foldl (add_member org) all_members
                  (concat (map (\<lambda>p. json (get_members s (members_url org p))) [1..<n])))
               (log @ map (\<lambda>p. Get (members_url org p)) [1..<Suc n]
                   @ [Print (members_error org (status (get_members s (members_url org n))))])"
proof -
  have "\<not> more_pages s org n"
    using assms(3) by (simp add: more_pages_def)
  with assms(1,2) have "get_org_members s org =
     Some (concat (map (\<lambda>q. json (get_members s (members_url org q))) [1..<n]), stop_log s org n)"
    by (rule get_org_members_stop)
  moreover have "stop_log s org n = map (\<lambda>p. Get (members_url org p)) [1..<Suc n]
                   @ [Print (members_error org (status (get_members s (members_url org n))))]"
    using assms(3) by (simp add: stop_log_def)
  ultimately show ?thesis by simp
qed

lemma demo_jupyterhub_pages:
  "\<forall>p. 1 \<le> p \<and> p < (2::nat) \<longrightarrow> more_pages demo_session ''jupyterhub'' p"
proof (intro allI impI)
  fix p :: nat
  assume "1 \<le> p \<and> p < 2"
  then have "p = 1" by arith
  moreover have "more_pages demo_session ''jupyterhub'' 1" by code_simp
  ultimately show "more_pages demo_session ''jupyterhub'' p" by simp
qed

theorem get_org_members_error_page_witness:
  "status (get_members demo_session (members_url ''jupyterhub'' 2)) \<noteq> 200
   \<and> get_org_members demo_session ''jupyterhub'' =
       Some ([Member ''erin''],
             [Get ''https://api.github.com/orgs/jupyterhub/members?page=1&per_page=100'',
              Get ''https://api.github.com/orgs/jupyterhub/members?page=2&per_page=100'',
              Print ''[red]Error fetching members for jupyterhub: 503[/red]''])
   \<and> all_members_loop demo_session [''jupyterhub'', ''jupyterlab''] [] [] =
       Some ([(''erin'', [''jupyterhub''])],
             [Get ''https://api.github.com/orgs/jupyterhub/members?page=1&per_page=100'',
              Get ''https://api.github.com/orgs/jupyterhub/members?page=2&per_page=100'',
              Print ''[red]Error fetching members for jupyterhub: 503[/red]'',
              Get ''https://api.github.com/orgs/jupyterlab/members?page=1&per_page=100''])"
proof -
  have a: "(1::nat) \<le> 2" by simp
  have c: "status (get_members demo_session (members_url ''jupyterhub'' 2)) \<noteq> 200" by code_simp
  have e: "concat (map (\<lambda>p. json (get_members demo_session (members_url ''jupyterhub'' p))) [1..<2])
      = [Member ''erin'']" by code_simp
  have f: "map (\<lambda>p. Get (members_url ''jupyterhub'' p)) [1..<Suc 2]
             @ [Print (members_error ''jupyterhub''
                         (status (get_members demo_session (members_url ''jupyterhub'' 2))))] =
           [Get ''https://api.github.com/orgs/jupyterhub/members?page=1&per_page=100'',
            Get ''https://api.github.com/orgs/jupyterhub/members?page=2&per_page=100'',
            Print ''[red]Error fetching members for jupyterhub: 503[/red]'']" by code_simp
  have g: "all_members_loop demo_session [''jupyterlab'']
             (foldl (add_member ''jupyterhub'') [] [Member ''erin''])
             ([] @ [Get ''https://api.github.com/orgs/jupyterhub/members?page=1&per_page=100'',
              Get ''https://api.github.com/orgs/jupyterhub/members?page=2&per_page=100'',
              Print ''[red]Error fetching members for jupyterhub: 503[/red]'']) =
       Some ([(''erin'', [''jupyterhub''])],
             [Get ''https://api.github.com/orgs/jupyterhub/members?page=1&per_page=100'',
              Get ''https://api.github.com/orgs/jupyterhub/members?page=2&per_page=100'',
              Print ''[red]Error fetching members for jupyterhub: 503[/red]'',
              Get ''https://api.github.com/orgs/jupyterlab/members?page=1&per_page=100''])"
    by code_simp
  note th = get_org_members_error_page
    [OF a demo_jupyterhub_pages c, of "[''jupyterlab'']" "[]" "[]", unfolded e f]
  have 1: "get_org_members demo_session ''jupyterhub'' =
       Some ([Member ''erin''],
             [Get ''https://api.github.com/orgs/jupyterhub/members?page=1&per_page=100'',
              Get ''https://api.github.com/orgs/jupyterhub/members?page=2&per_page=100'',
              Print ''[red]Error fetching members for jupyterhub: 503[/red]''])"
    using th by (rule conjunct1)
  have 2: "all_members_loop demo_session [''jupyterhub'', ''jupyterlab''] [] [] =
      all_members_loop demo_session [''jupyterlab'']
             (foldl (add_member ''jupyterhub'') [] [Member ''erin''])
             ([] @ [Get ''https://api.github.com/orgs/jupyterhub/members?page=1&per_page=100'',
              Get ''https://api.github.com/orgs/jupyterhub/members?page=2&per_page=100'',
              Print ''[red]Error fetching members for jupyterhub: 503[/red]''])"
    using th by (rule conjunct2)
  show ?thesis
    by (intro conjI) (rule c, rule 1, rule trans [OF 2 g])
qed

text \<open>
  C1, as the code has it. The loop appends the organization once for every member object
  it is given, and does not look whether the organization is already in the list. So a
  login is mapped to the organizations in which it appeared, in the configured order, each
  as many times as the login occurs among the members enumerated for it. The set of these
  organizations is exactly the set of organizations in which the login appeared, and the
  list has no duplicates when the organizations are distinct and no login occurs twice
  among the members enumerated for one organization.
\<close>

theorem all_members_memberships:
  assumes "\<forall>org \<in> set os. get_org_members s org = Some (ms org, lg org)"
  shows "\<exists>d. all_members_loop s os [] log = Some (d, log @ concat (map lg os))
           \<and> (\<forall>u. map_of d u
                      = (if memberships ms os u = [] then None else Some (memberships ms os u))
                    \<and> set (memberships ms os u) = {org \<in> set os. u \<in> login ` set (ms org)}
                    \<and> (distinct os \<and> (\<forall>org \<in> set os. distinct (map login (ms org)))
                         \<longrightarrow> distinct (memberships ms os u)))"
proof -
  from all_members_loop_Some [OF assms, of "[]" log] obtain d where
    d: "all_members_loop s os [] log = Some (d, log @ concat (map lg os))"
       "\<forall>u. orgs_of d u = orgs_of [] u @ memberships ms os u"
       "nonempty_entries [] \<longrightarrow> nonempty_entries d"
    by (elim exE conjE)
  have ne: "nonempty_entries d"
    using d(3) by (simp add: nonempty_entries_def)
  have "orgs_of d u = memberships ms os u" for u
    using d(2) by (simp add: orgs_of_def)
  then have "map_of d u = (if memberships ms os u = [] then None else Some (memberships ms os u))" for u
    using map_of_nonempty_entries [OF ne, of u] by simp
  then show ?thesis
    using d(1) by (auto simp: set_memberships distinct_memberships)
qed

lemma demo_enumerations:
  "\<forall>org \<in> set orgs. get_org_members demo_session org
      = Some (fst (the (get_org_members demo_session org)), snd (the (get_org_members demo_session org)))"
  by code_simp

theorem all_members_memberships_witness:
  "distinct orgs
   \<and> list_all (\<lambda>org. distinct (map login (fst (the (get_org_members demo_session org))))) orgs
   \<and> (\<exists>d lg. all_members_loop demo_session orgs [] [] = Some (d, lg)
          \<and> map_of d ''bob'' = Some [''ipython'', ''jupyter'']
          \<and> map_of d ''zed'' = None
          \<and> distinct [''ipython'', ''jupyter''])"
proof -
  let ?ms = "\<lambda>org. fst (the (get_org_members demo_session org))"
  let ?lg = "\<lambda>org. snd (the (get_org_members demo_session org))"
  have a: "distinct orgs" by code_simp
  have b: "\<forall>org \<in> set orgs. distinct (map login (?ms org))" by code_simp
  have c: "memberships ?ms orgs ''bob'' = [''ipython'', ''jupyter'']" by code_simp
  have d: "memberships ?ms orgs ''zed'' = []" by code_simp
  from all_members_memberships [OF demo_enumerations, of "[]"] obtain d where
    "all_members_loop demo_session orgs [] [] = Some (d, [] @ concat (map ?lg orgs))"
    "\<forall>u. map_of d u = (if memberships ?ms orgs u = [] then None else Some (memberships ?ms orgs u))
         \<and> set (memberships ?ms orgs u) = {org \<in> set orgs. u \<in> login ` set (?ms org)}
         \<and> (distinct orgs \<and> (\<forall>org \<in> set orgs. distinct (map login (?ms org)))
                         \<longrightarrow> distinct (memberships ?ms orgs u))"
    by (elim exE conjE)
  then have "all_members_loop demo_session orgs [] [] = Some (d, concat (map ?lg orgs))
      \<and> map_of d ''bob'' = Some [''ipython'', ''jupyter'']
      \<and> map_of d ''zed'' = None
      \<and> distinct [''ipython'', ''jupyter'']"
    by (simp add: c d)
  then have "\<exists>d lg. all_members_loop demo_session orgs [] [] = Some (d, lg)
      \<and> map_of d ''bob'' = Some [''ipython'', ''jupyter'']
      \<and> map_of d ''zed'' = None
      \<and> distinct [''ipython'', ''jupyter'']"
    by (intro exI)
  moreover have "list_all (\<lambda>org. distinct (map login (?ms org))) orgs"
    using b by (simp add: list_all_iff)
  ultimately show ?thesis
    using a by (intro conjI)
qed

theorem all_members_duplicates_counterexample:
  "map_option fst (all_members_loop dup_session orgs [] [])
     = Some [(''bob'', [''ipython'', ''ipython'', ''jupyter''])]
   \<and> \<not> distinct [''ipython'', ''ipython'', ''jupyter'']"
  by code_simp

subsection \<open>The log of an enumeration\<close>

lemma get_org_members_SomeE:
  assumes "get_org_members s org = Some (ms, lg)"
  obtains n where "1 \<le> n" and "\<forall>q. 1 \<le> q \<and> q < n \<longrightarrow> more_pages s org q"
    and "\<not> more_pages s org n"
    and "ms = concat (map (\<lambda>q. json (get_members s (members_url org q))) [1..<n])"
    and "lg = stop_log s org n"
proof -
  from get_org_members_SomeD [OF assms] obtain n where
    n: "1 \<le> n" "\<forall>q. 1 \<le> q \<and> q < n \<longrightarrow> more_pages s org q" "\<not> more_pages s org n"
    by (elim exE conjE)
  from get_org_members_stop [OF n] assms
  have "ms = concat (map (\<lambda>q. json (get_members s (members_url org q))) [1..<n])"
    and "lg = stop_log s org n"
    by simp_all
  with n show thesis by (rule that)
qed

lemma stop_log_Cons:
  "1 \<le> n \<Longrightarrow> \<exists>r. stop_log s org n = Get (members_url org 1) # r"
  by (simp add: stop_log_def upt_conv_Cons del: upt_Suc)

lemma stop_log_elems:
  "x \<in> set (stop_log s org n) \<Longrightarrow> (\<exists>p. x = Get (members_url org p)) \<or> (\<exists>t. x = Print t)"
  by (auto simp: stop_log_def split: if_splits)

lemma stop_log_gets:
  assumes "1 \<le> q" and "q \<le> n"
  shows "Get (members_url org q) \<in> set (stop_log s org n)"
proof -
  have "q \<in> set [1..<Suc n]"
    using assms by auto
  then have "Get (members_url org q) \<in> set (map (\<lambda>q. Get (members_url org q)) [1..<Suc n])"
    unfolding set_map by (rule imageI)
  then show ?thesis
    by (simp add: stop_log_def del: upt_Suc)
qed

lemma get_org_members_cong:
  assumes "get_org_members s org = Some (ms, lg)"
    and "\<forall>url. Get url \<in> set lg \<longrightarrow> get_members s' url = get_members s url"
  shows "get_org_members s' org = Some (ms, lg)"
proof -
  from assms(1) obtain n where
    n: "1 \<le> n" "\<forall>q. 1 \<le> q \<and> q < n \<longrightarrow> more_pages s org q" "\<not> more_pages s org n"
    and ms: "ms = concat (map (\<lambda>q. json (get_members s (members_url org q))) [1..<n])"
    and lg: "lg = stop_log s org n"
    by (rule get_org_members_SomeE)
  have same: "get_members s' (members_url org q) = get_members s (members_url org q)"
    if "1 \<le> q" "q \<le> n" for q
    using assms(2) stop_log_gets [OF that] unfolding lg by blast
  have more: "more_pages s' org q = more_pages s org q" if "1 \<le> q" "q \<le> n" for q
    using same [OF that] by (simp add: more_pages_def)
  have 1: "\<forall>q. 1 \<le> q \<and> q < n \<longrightarrow> more_pages s' org q"
    using n(2) more by simp
  have 2: "\<not> more_pages s' org n"
    using n(1,3) more by simp
  have 3: "concat (map (\<lambda>q. json (get_members s' (members_url org q))) [1..<n]) = ms"
    unfolding ms by (rule arg_cong [where f = concat], rule map_cong) (simp_all add: same)
  have 4: "stop_log s' org n = lg"
    unfolding lg stop_log_def using same [OF n(1) order_refl] by simp
  show ?thesis
    using get_org_members_stop [OF n(1) 1 2] unfolding 3 4 .
qed

lemma all_members_loop_log:
  assumes "all_members_loop s os d l0 = Some (d', l1)"
  shows "\<exists>r. l1 = l0 @ r
           \<and> (\<forall>x \<in> set r. (\<exists>org p. x = Get (members_url org p)) \<or> (\<exists>t. x = Print t))
           \<and> (os \<noteq> [] \<longrightarrow> (\<exists>r'. r = Get (members_url (hd os) 1) # r'))"
  using assms
proof (induction os arbitrary: d l0)
  case Nil
  then show ?case by simp
next
  case (Cons org os)
  from Cons.prems obtain ms lg where
    here: "get_org_members s org = Some (ms, lg)"
    and rest: "all_members_loop s os (foldl (add_member org) d ms) (l0 @ lg) = Some (d', l1)"
    by (auto split: option.splits)
  from here obtain n where n: "1 \<le> n" and lg: "lg = stop_log s org n"
    by (rule get_org_members_SomeE)
  from Cons.IH [OF rest] obtain r where
    r: "l1 = (l0 @ lg) @ r"
       "\<forall>x \<in> set r. (\<exists>org p. x = Get (members_url org p)) \<or> (\<exists>t. x = Print t)"
    by (elim exE conjE)
  from stop_log_Cons [OF n, of s org] obtain r' where r': "lg = Get (members_url org 1) # r'"
    unfolding lg by (elim exE)
  have "l1 = l0 @ (lg @ r)"
    using r(1) by simp
  moreover have "(\<exists>org p. x = Get (members_url org p)) \<or> (\<exists>t. x = Print t)"
    if "x \<in> set lg" for x
    using stop_log_elems [of x s org n] that unfolding lg by blast
  then have "\<forall>x \<in> set (lg @ r). (\<exists>org p. x = Get (members_url org p)) \<or> (\<exists>t. x = Print t)"
    using r(2) by auto
  moreover have "\<exists>r''. lg @ r = Get (members_url (hd (org # os)) 1) # r''"
    using r' by simp
  ultimately show ?case by blast
qed

lemma all_members_loop_cong:
  assumes "all_members_loop s os d l0 = Some (d', l1)"
    and "\<forall>url. Get url \<in> set l1 \<longrightarrow> get_members s' url = get_members s url"
  shows "all_members_loop s' os d l0 = Some (d', l1)"
  using assms
proof (induction os arbitrary: d l0)
  case Nil
  then show ?case by simp
next
  case (Cons org os)
  from Cons.prems(1) obtain ms lg where
    here: "get_org_members s org = Some (ms, lg)"
    and rest: "all_members_loop s os (foldl (add_member org) d ms) (l0 @ lg) = Some (d', l1)"
    by (auto split: option.splits)
  from all_members_loop_log [OF rest] obtain r where "l1 = (l0 @ lg) @ r"
    by (elim exE conjE)
  then have "set lg \<subseteq> set l1" by auto
  with Cons.prems(2) have "\<forall>url. Get url \<in> set lg \<longrightarrow> get_members s' url = get_members s url"
    by blast
  with here have "get_org_members s' org = Some (ms, lg)"
    by (rule get_org_members_cong)
  moreover have "all_members_loop s' os (foldl (add_member org) d ms) (l0 @ lg) = Some (d', l1)"
    using rest Cons.prems(2) by (rule Cons.IH)
  ultimately show ?case by simp
qed

lemma all_members_loop_keys:
  assumes "all_members_loop s os d l0 = Some (d', l1)"
  shows "(distinct (map fst d) \<longrightarrow> distinct (map fst d'))
         \<and> (\<forall>u. u \<in> fst ` set d' \<longleftrightarrow>
                 u \<in> fst ` set d
                 \<or> (\<exists>org \<in> set os. \<exists>ms lg. get_org_members s org = Some (ms, lg) \<and> u \<in> login ` set ms))"
  using assms
proof (induction os arbitrary: d l0)
  case Nil
  then show ?case by simp
next
  case (Cons org os)
  from Cons.prems(1) obtain ms lg where
    here: "get_org_members s org = Some (ms, lg)"
    and rest: "all_members_loop s os (foldl (add_member org) d ms) (l0 @ lg) = Some (d', l1)"
    by (auto split: option.splits)
  from Cons.IH [OF rest] here show ?case
    by (auto simp: distinct_foldl_add_member keys_foldl_add_member)
qed

subsection \<open>The rate-limit check\<close>

lemma check_rate_limit_cong:
  "get_rate s' rate_limit_url = get_rate s rate_limit_url \<Longrightarrow>
   check_rate_limit e s' = check_rate_limit e s"
  by (simp add: check_rate_limit_def)

lemma check_rate_limit_log:
  assumes "check_rate_limit e s = Inr (b, l)"
  shows "\<exists>r. l = Get rate_limit_url # r \<and> (\<forall>x \<in> set r. \<exists>t. x = Print t)"
  using assms
  by (auto simp: check_rate_limit_def Let_def split: if_splits sum.splits)

lemma check_rate_limit_raised:
  assumes "check_rate_limit e s = Inl (err, l)"
  shows "l = [Get rate_limit_url]"
  using assms
  by (auto simp: check_rate_limit_def Let_def split: if_splits sum.splits)

subsection \<open>The URLs\<close>

lemma events_url_inj:
  "events_url u = events_url v \<Longrightarrow> u = v"
  by (simp add: events_url_def)

lemma events_url_not_members_url:
  "events_url u \<noteq> members_url org p"
  by (simp add: events_url_def members_url_def)

lemma events_url_not_rate_limit_url:
  "events_url u \<noteq> rate_limit_url"
  by (simp add: events_url_def rate_limit_url_def)

subsection \<open>The activities\<close>

lemma gather_Inr_iff:
  "gather ts = Inr rs \<longleftrightarrow> ts = map Inr rs"
proof (induction ts arbitrary: rs)
  case Nil
  then show ?case by auto
next
  case (Cons t ts)
  show ?case
  proof (cases t)
    case (Inl e)
    then show ?thesis by (cases rs) auto
  next
    case (Inr r)
    then show ?thesis
      using Cons.IH by (cases rs; cases "gather ts") auto
  qed
qed

lemma user_activities_loop_Inr:
  assumes "\<forall>z \<in> set zs. fst z \<in> fst ` set d"
  shows "user_activities_loop d zs acc =
     Inr (acc @ concat (map (\<lambda>z. case snd z of None \<Rightarrow> []
                                   | Some t \<Rightarrow> [(fst z, t, orgs_of d (fst z))]) zs))"
  using assms
proof (induction zs arbitrary: acc)
  case Nil
  then show ?case by simp
next
  case (Cons z zs)
  obtain u r where z: "z = (u, r)" by (cases z)
  have rest: "\<forall>z \<in> set zs. fst z \<in> fst ` set d"
    using Cons.prems by simp
  show ?case
  proof (cases r)
    case None
    then show ?thesis
      using Cons.IH [OF rest] by (simp add: z)
  next
    case (Some t)
    have "u \<in> fst ` set d"
      using Cons.prems by (simp add: z)
    then have "map_of d u \<noteq> None"
      by (simp add: map_of_eq_None_iff)
    then obtain v where v: "map_of d u = Some v"
      by blast
    then show ?thesis
      using Cons.IH [OF rest] Some by (simp add: z orgs_of_def)
  qed
qed

lemma zip_results:
  "map f us = map Inr rs \<Longrightarrow>
   map (\<lambda>z. case snd z of None \<Rightarrow> [] | Some t \<Rightarrow> [(fst z, t, g (fst z))]) (zip us rs)
     = map (\<lambda>u. case f u of Inr (Some t) \<Rightarrow> [(u, t, g u)] | _ \<Rightarrow> []) us"
proof (induction us arbitrary: rs)
  case Nil
  then show ?case by simp
next
  case (Cons u us)
  then obtain r rs' where rs: "rs = r # rs'" "f u = Inr r" "map f us = map Inr rs'"
    by (cases rs) auto
  show ?case
    using Cons.IH [OF rs(3)] rs(1,2) by (simp split: option.splits)
qed

lemma user_activities_of_InrD:
  assumes "user_activities_of e s d = Inr acts"
  shows "(\<forall>u \<in> fst ` set d. \<exists>r. get_user_activity e s u = Inr r)
         \<and> acts = concat (map (\<lambda>u. case get_user_activity e s u of
                                       Inr (Some t) \<Rightarrow> [(u, t, orgs_of d u)] | _ \<Rightarrow> [])
                             (map fst d))"
proof -
  let ?us = "map fst d"
  have snd_tasks: "map snd (map (\<lambda>username. (username, get_user_activity e s username)) ?us)
      = map (get_user_activity e s) ?us"
    by simp
  have fst_tasks: "map fst (map (\<lambda>username. (username, get_user_activity e s username)) ?us) = ?us"
    by (simp add: comp_def)
  from assms obtain results where
    g: "gather (map (get_user_activity e s) ?us) = Inr results"
    and l: "user_activities_loop d (zip ?us results) [] = Inr acts"
    unfolding user_activities_of_def Let_def snd_tasks fst_tasks
    by (auto split: sum.splits)
  from g have m: "map (get_user_activity e s) ?us = map Inr results"
    by (simp add: gather_Inr_iff)
  have "\<exists>r. get_user_activity e s u = Inr r" if "u \<in> fst ` set d" for u
  proof -
    from that have "get_user_activity e s u \<in> set (map (get_user_activity e s) ?us)" by auto
    then show ?thesis unfolding m by auto
  qed
  moreover have "\<forall>z \<in> set (zip ?us results). fst z \<in> fst ` set d"
    by (auto dest: set_zip_leftD)
  then have "user_activities_loop d (zip ?us results) [] =
     Inr ([] @ concat (map (\<lambda>z. case snd z of None \<Rightarrow> []
                                   | Some t \<Rightarrow> [(fst z, t, orgs_of d (fst z))]) (zip ?us results)))"
    by (rule user_activities_loop_Inr)
  with l have "acts = concat (map (\<lambda>z. case snd z of None \<Rightarrow> []
                                   | Some t \<Rightarrow> [(fst z, t, orgs_of d (fst z))]) (zip ?us results))"
    by simp
  then have "acts = concat (map (\<lambda>u. case get_user_activity e s u of
                                       Inr (Some t) \<Rightarrow> [(u, t, orgs_of d u)] | _ \<Rightarrow> []) ?us)"
    unfolding zip_results [OF m] .
  ultimately show ?thesis by blast
qed

lemma fst_activities:
  "map fst (concat (map (\<lambda>u. case f u of Inr (Some t) \<Rightarrow> [(u, t, g u)] | _ \<Rightarrow> []) us))
     = filter (\<lambda>u. \<exists>t. f u = Inr (Some t)) us"
  by (induction us) (auto split: sum.splits option.splits)

lemma user_activities_of_cong:
  assumes "\<forall>u \<in> fst ` set d. get_events s' (events_url u) = get_events s (events_url u)"
  shows "user_activities_of e s' d = user_activities_of e s d"
proof -
  have "get_user_activity e s' u = get_user_activity e s u" if "u \<in> fst ` set d" for u
  proof -
    have "get_events s' (events_url u) = get_events s (events_url u)"
      using assms that by blast
    then show ?thesis
      by (simp add: get_user_activity_def)
  qed
  then have eq: "map (\<lambda>username. (username, get_user_activity e s' username)) (map fst d)
      = map (\<lambda>username. (username, get_user_activity e s username)) (map fst d)"
    by simp
  show ?thesis
    unfolding user_activities_of_def eq by (rule refl)
qed

subsection \<open>The sort\<close>

lemma insort_key_cong_on:
  "f x = g x \<Longrightarrow> \<forall>y \<in> set ys. f y = g y \<Longrightarrow> insort_key f x ys = insort_key g x ys"
  by (induction ys) auto

lemma sort_key_cong_on:
  "\<forall>x \<in> set xs. f x = g x \<Longrightarrow> sort_key f xs = sort_key g xs"
proof (induction xs)
  case Nil
  show ?case by simp
next
  case (Cons x xs)
  have ih: "sort_key f xs = sort_key g xs"
    using Cons by simp
  have "insort_key f x (sort_key g xs) = insort_key g x (sort_key g xs)"
    using Cons.prems by (intro insort_key_cong_on) simp_all
  then show ?case
    by (simp add: ih)
qed

lemma sorted_by_activity_InrD:
  assumes "sorted_by_activity acts = Inr entries"
  shows "entries = rev (sort_key (\<lambda>x. utc_micros (fst (snd x))) (rev acts))"
proof (cases "list_all (\<lambda>x. aware (fst (snd x))) acts")
  case True
  with assms show ?thesis by (simp add: sorted_by_activity_def)
next
  case False
  with assms have naive: "list_all (\<lambda>x. \<not> aware (fst (snd x))) acts"
    and e: "entries = rev (sort_key (\<lambda>x. wall_micros (fst (snd x))) (rev acts))"
    by (auto simp: sorted_by_activity_def split: if_splits)
  have "\<forall>x \<in> set (rev acts). wall_micros (fst (snd x)) = utc_micros (fst (snd x))"
    using naive by (auto simp: list_all_iff aware_def utc_micros_def)
  then have "sort_key (\<lambda>x. wall_micros (fst (snd x))) (rev acts)
      = sort_key (\<lambda>x. utc_micros (fst (snd x))) (rev acts)"
    by (rule sort_key_cong_on)
  then show ?thesis
    unfolding e by simp
qed

lemma rev_sort_key_rev_sorted:
  "sorted_wrt (\<lambda>a b. k b \<le> k a) (rev (sort_key k (rev xs)))"
proof -
  have "sorted (map k (sort_key k (rev xs)))"
    by (rule sorted_sort_key)
  then have "sorted_wrt (\<lambda>a b. k a \<le> k b) (sort_key k (rev xs))"
    by (simp add: sorted_map)
  then show ?thesis
    by (simp add: sorted_wrt_rev)
qed

lemma rev_sort_key_rev_stable:
  "filter (\<lambda>x. k x = v) (rev (sort_key k (rev xs))) = filter (\<lambda>x. k x = v) xs"
  by (simp add: rev_filter [symmetric] sort_key_stable)

lemma rev_sort_key_rev_fst:
  assumes "distinct (map fst xs)"
  shows "distinct (map fst (rev (sort_key k (rev xs))))"
proof -
  have "distinct xs" and "inj_on fst (set xs)"
    using assms by (simp_all add: distinct_map)
  then show ?thesis
    by (simp add: distinct_map)
qed

subsection \<open>The last loop\<close>

lemma print_activities_Inr:
  assumes "print_activities e entries l = Inr log"
  shows "\<exists>lines. map (activity_line e) entries = map Inr lines \<and> log = l @ map Print lines"
  using assms
proof (induction entries arbitrary: l)
  case Nil
  then show ?case by simp
next
  case (Cons x entries)
  from Cons.prems obtain line where
    line: "activity_line e x = Inr line"
    and rest: "print_activities e entries (l @ [Print line]) = Inr log"
    by (auto split: sum.splits)
  from Cons.IH [OF rest] obtain lines where
    lines: "map (activity_line e) entries = map Inr lines" "log = (l @ [Print line]) @ map Print lines"
    by (elim exE conjE)
  have "map (activity_line e) (x # entries) = map Inr (line # lines)
      \<and> log = l @ map Print (line # lines)"
    using line lines by simp
  then show ?case by (rule exI)
qed

lemma print_activities_returns:
  assumes "\<forall>x \<in> set entries. \<exists>line. activity_line e x = Inr line"
  shows "\<exists>log. print_activities e entries l = Inr log"
  using assms
proof (induction entries arbitrary: l)
  case Nil
  then show ?case by simp
next
  case (Cons x entries)
  from Cons.prems obtain line where line: "activity_line e x = Inr line"
    by auto
  have "\<forall>x \<in> set entries. \<exists>line. activity_line e x = Inr line"
    using Cons.prems by simp
  from Cons.IH [OF this, of "l @ [Print line]"] show ?case
    using line by simp
qed

lemma activity_line_returns:
  assumes "naturaltime e (time_since e (fst (snd x))) = Inr str"
  shows "\<exists>line. activity_line e x = Inr line"
  using assms by (cases x) (simp add: activity_line_def)

subsection \<open>The whole run\<close>

lemma main_eq:
  assumes "check_rate_limit e s = Inr (False, log0)"
    and "all_members_loop s orgs [] log0 = Some (d, log1)"
    and "user_activities_of e s d = Inr acts"
    and "sorted_by_activity acts = Inr entries"
  shows "main e s = Some (print_activities e entries
                            (log1 @ map (\<lambda>x. Get (events_url (fst x))) d))"
  using assms by (simp add: main_def enumerate_and_report_def)

lemma main_cases:
  assumes "main e s = Some (Inr log)"
  obtains (abort) "check_rate_limit e s = Inr (True, log)"
  | (report) log0 d log1 acts entries lines where
      "check_rate_limit e s = Inr (False, log0)"
      "all_members_loop s orgs [] log0 = Some (d, log1)"
      "user_activities_of e s d = Inr acts"
      "sorted_by_activity acts = Inr entries"
      "print_activities e entries (log1 @ map (\<lambda>x. Get (events_url (fst x))) d) = Inr log"
      "map (activity_line e) entries = map Inr lines"
      "log = log1 @ map (\<lambda>x. Get (events_url (fst x))) d @ map Print lines"
proof (cases "check_rate_limit e s")
  case (Inl raised)
  with assms show thesis
    by (simp add: main_def)
next
  case (Inr ok)
  obtain b log0 where ok: "ok = (b, log0)" by (cases ok)
  show thesis
  proof (cases b)
    case True
    with Inr ok assms have "check_rate_limit e s = Inr (True, log)"
      by (simp add: main_def)
    then show thesis by (rule abort)
  next
    case False
    with Inr ok assms have "enumerate_and_report e s orgs log0 = Some (Inr log)"
      by (simp add: main_def)
    then obtain d log1 acts entries where
      r: "all_members_loop s orgs [] log0 = Some (d, log1)"
      "user_activities_of e s d = Inr acts"
      "sorted_by_activity acts = Inr entries"
      "print_activities e entries (log1 @ map (\<lambda>x. Get (events_url (fst x))) d) = Inr log"
      unfolding enumerate_and_report_def Let_def
      by (auto split: option.splits sum.splits)
    from print_activities_Inr [OF r(4)] obtain lines where
      l: "map (activity_line e) entries = map Inr lines"
      "log = (log1 @ map (\<lambda>x. Get (events_url (fst x))) d) @ map Print lines"
      by (elim exE conjE)
    have c: "check_rate_limit e s = Inr (False, log0)"
      using Inr ok False by simp
    from c r l(1) show thesis
    proof (rule report)
      show "log = log1 @ map (\<lambda>x. Get (events_url (fst x))) d @ map Print lines"
        using l(2) by simp
    qed
  qed
qed

subsection \<open>Claims about the rate-limit check\<close>

text \<open>
  C3. When the rate-limit request succeeds and reports fewer than 10 remaining requests,
  the run ends at the check, and its only request is the rate-limit one: no request for
  members and none for events is made. It ends in one of two ways. The library calls that
  describe the reset time come before the first line is printed; if they return, \<open>main\<close>
  prints the four lines about the rate limit and returns; if one of them raises, the
  exception leaves \<open>main\<close> with nothing printed.
\<close>

theorem main_aborts_on_low_quota:
  assumes "status (get_rate s rate_limit_url) = 200"
    and "remaining (json (get_rate s rate_limit_url)) < 10"
  shows "main e s =
           (case fromtimestamp e (reset (json (get_rate s rate_limit_url))) of
              Inl err \<Rightarrow> Some (Inl (err, [Get rate_limit_url]))
            | Inr reset_time \<Rightarrow>
                (case naturaltime e (now_local e - reset_time) of
                   Inl err \<Rightarrow> Some (Inl (err, [Get rate_limit_url]))
                 | Inr reset_in \<Rightarrow>
                     Some (Inr [Get rate_limit_url,
                                Print (''Rate limit remaining: ''
                                         @ str_int (remaining (json (get_rate s rate_limit_url)))),
                                Print (''Rate limit resets '' @ reset_in),
                                Print (''[yellow]Warning: Low rate limit (''
                                         @ str_int (remaining (json (get_rate s rate_limit_url)))
                                         @ '' remaining)[/yellow]''),
                                Print ''[red]Aborting due to very low rate limit[/red]''])))
         \<and> (\<exists>out. main e s = Some out \<and> requests (outcome_log out) = [rate_limit_url])"
  using assms
  by (simp add: main_def check_rate_limit_def Let_def outcome_log_def split: sum.splits)

theorem main_aborts_on_low_quota_witness:
  "status (get_rate low_quota_session rate_limit_url) = 200
   \<and> remaining (json (get_rate low_quota_session rate_limit_url)) < 10
   \<and> main demo_env low_quota_session =
       Some (Inr [Get ''https://api.github.com/rate_limit'',
                  Print ''Rate limit remaining: 5'',
                  Print ''Rate limit resets 10 minutes from now'',
                  Print ''[yellow]Warning: Low rate limit (5 remaining)[/yellow]'',
                  Print ''[red]Aborting due to very low rate limit[/red]''])
   \<and> status (get_rate far_reset_session rate_limit_url) = 200
   \<and> remaining (json (get_rate far_reset_session rate_limit_url)) < 10
   \<and> main demo_env far_reset_session =
       Some (Inl (ValueError, [Get ''https://api.github.com/rate_limit'']))"
proof -
  have a: "status (get_rate low_quota_session rate_limit_url) = 200" by code_simp
  have b: "remaining (json (get_rate low_quota_session rate_limit_url)) < 10" by code_simp
  have c: "(case fromtimestamp demo_env (reset (json (get_rate low_quota_session rate_limit_url))) of
              Inl err \<Rightarrow> Some (Inl (err, [Get rate_limit_url]))
            | Inr reset_time \<Rightarrow>
                (case naturaltime demo_env (now_local demo_env - reset_time) of
                   Inl err \<Rightarrow> Some (Inl (err, [Get rate_limit_url]))
                 | Inr reset_in \<Rightarrow>
                     Some (Inr [Get rate_limit_url,
                                Print (''Rate limit remaining: ''
                                         @ str_int (remaining (json (get_rate low_quota_session rate_limit_url)))),
                                Print (''Rate limit resets '' @ reset_in),
                                Print (''[yellow]Warning: Low rate limit (''
                                         @ str_int (remaining (json (get_rate low_quota_session rate_limit_url)))
                                         @ '' remaining)[/yellow]''),
                                Print ''[red]Aborting due to very low rate limit[/red]''])))
      = Some (Inr [Get ''https://api.github.com/rate_limit'',
                  Print ''Rate limit remaining: 5'',
                  Print ''Rate limit resets 10 minutes from now'',
                  Print ''[yellow]Warning: Low rate limit (5 remaining)[/yellow]'',
                  Print ''[red]Aborting due to very low rate limit[/red]''])"
    by code_simp
  have a': "status (get_rate far_reset_session rate_limit_url) = 200" by code_simp
  have b': "remaining (json (get_rate far_reset_session rate_limit_url)) < 10" by code_simp
  have c': "(case fromtimestamp demo_env (reset (json (get_rate far_reset_session rate_limit_url))) of
              Inl err \<Rightarrow> Some (Inl (err, [Get rate_limit_url]))
            | Inr reset_time \<Rightarrow>
                (case naturaltime demo_env (now_local demo_env - reset_time) of
                   Inl err \<Rightarrow> Some (Inl (err, [Get rate_limit_url]))
                 | Inr reset_in \<Rightarrow>
                     Some (Inr [Get rate_limit_url,
                                Print (''Rate limit remaining: ''
                                         @ str_int (remaining (json (get_rate far_reset_session rate_limit_url)))),
                                Print (''Rate limit resets '' @ reset_in),
                                Print (''[yellow]Warning: Low rate limit (''
                                         @ str_int (remaining (json (get_rate far_reset_session rate_limit_url)))
                                         @ '' remaining)[/yellow]''),
                                Print ''[red]Aborting due to very low rate limit[/red]''])))
      = Some (Inl (ValueError, [Get ''https://api.github.com/rate_limit'']))"
    by code_simp
  note 1 = main_aborts_on_low_quota [OF a b, of demo_env, THEN conjunct1, unfolded c]
  note 2 = main_aborts_on_low_quota [OF a' b', of demo_env, THEN conjunct1, unfolded c']
  show ?thesis
    using a b 1 a' b' 2 by (intro conjI)
qed

lemma all_members_loop_enumerated:
  assumes "all_members_loop s os d l0 = Some (d', l1)"
  shows "\<forall>org \<in> set os. \<exists>ms lg. get_org_members s org = Some (ms, lg) \<and> set lg \<subseteq> set l1"
  using assms
proof (induction os arbitrary: d l0)
  case Nil
  then show ?case by simp
next
  case (Cons org os)
  from Cons.prems obtain ms lg where
    here: "get_org_members s org = Some (ms, lg)"
    and rest: "all_members_loop s os (foldl (add_member org) d ms) (l0 @ lg) = Some (d', l1)"
    by (auto split: option.splits)
  from all_members_loop_log [OF rest] obtain r where "l1 = (l0 @ lg) @ r"
    by (elim exE conjE)
  then have "set lg \<subseteq> set l1" by auto
  with here have "\<exists>ms lg. get_org_members s org = Some (ms, lg) \<and> set lg \<subseteq> set l1"
    by blast
  with Cons.IH [OF rest] show ?case by simp
qed

lemma events_readable_result:
  assumes "events_readable e s u"
  shows "get_user_activity e s u = Inr None
         \<or> (\<exists>t. get_user_activity e s u = Inr (Some t) \<and> aware t)"
  using assms
  by (auto simp: events_readable_def get_user_activity_def Let_def split: if_splits sum.splits)

lemma gather_returns:
  assumes "\<forall>t \<in> set ts. \<exists>r. t = Inr r"
  shows "\<exists>rs. gather ts = Inr rs"
  using assms
proof (induction ts)
  case Nil
  then show ?case by simp
next
  case (Cons t ts)
  from Cons.prems obtain r where t: "t = Inr r" by auto
  from Cons obtain rs where "gather ts = Inr rs" by auto
  with t show ?case by simp
qed

lemma user_activities_of_returns:
  assumes "\<forall>u \<in> fst ` set d. \<exists>r. get_user_activity e s u = Inr r"
  shows "\<exists>acts. user_activities_of e s d = Inr acts"
proof -
  let ?us = "map fst d"
  have snd_tasks: "map snd (map (\<lambda>username. (username, get_user_activity e s username)) ?us)
      = map (get_user_activity e s) ?us"
    by simp
  have fst_tasks: "map fst (map (\<lambda>username. (username, get_user_activity e s username)) ?us) = ?us"
    by (simp add: comp_def)
  have "\<forall>t \<in> set (map (get_user_activity e s) ?us). \<exists>r. t = Inr r"
    using assms by auto
  then obtain results where g: "gather (map (get_user_activity e s) ?us) = Inr results"
    using gather_returns by blast
  have "\<forall>z \<in> set (zip ?us results). fst z \<in> fst ` set d"
    by (auto dest: set_zip_leftD)
  then have "user_activities_loop d (zip ?us results) [] =
     Inr ([] @ concat (map (\<lambda>z. case snd z of None \<Rightarrow> []
                                   | Some t \<Rightarrow> [(fst z, t, orgs_of d (fst z))]) (zip ?us results)))"
    by (rule user_activities_loop_Inr)
  then show ?thesis
    unfolding user_activities_of_def Let_def snd_tasks fst_tasks g by simp
qed

lemma activities_elem:
  assumes "x \<in> set (concat (map (\<lambda>u. case f u of Inr (Some t) \<Rightarrow> [(u, t, g u)] | _ \<Rightarrow> []) us))"
  shows "\<exists>u t. x = (u, t, g u) \<and> u \<in> set us \<and> f u = Inr (Some t)"
  using assms by (induction us) (auto split: sum.splits option.splits)

lemma activities_intro:
  assumes "u \<in> set us" and "f u = Inr (Some t)"
  shows "(u, t, g u) \<in> set (concat (map (\<lambda>u. case f u of Inr (Some t) \<Rightarrow> [(u, t, g u)] | _ \<Rightarrow> []) us))"
  using assms by (induction us) (auto split: sum.splits option.splits)

lemma printed_line:
  assumes "map (activity_line e) entries = map Inr lines" and "x \<in> set entries"
  shows "\<exists>line. activity_line e x = Inr line \<and> line \<in> set lines"
  using assms
proof (induction entries arbitrary: lines)
  case Nil
  then show ?case by simp
next
  case (Cons y entries)
  from Cons.prems(1) obtain l ls where
    ls: "lines = l # ls" "activity_line e y = Inr l" "map (activity_line e) entries = map Inr ls"
    by (cases lines) auto
  show ?case
  proof (cases "x = y")
    case True
    with ls show ?thesis by simp
  next
    case False
    with Cons.prems(2) have "x \<in> set entries" by simp
    from Cons.IH [OF ls(3) this] ls(1) show ?thesis by auto
  qed
qed

text \<open>
  C8. When the rate-limit request does not succeed, the check prints nothing and does not
  stop the run: its log is the request alone, and \<open>main\<close> goes on with the enumeration
  and the report. Whenever \<open>main\<close> then returns, its log starts with the rate-limit
  request followed at once by the request for the first page of the first configured
  organization; it holds the requests of the enumeration of every configured organization
  and the events request of every member enumerated; and for every such member whose
  events request succeeds with a non-empty list, it holds the line printed for that member,
  with the time read from the first event and with that organization. And \<open>main\<close> does
  return when every enumeration returns, the events of every member enumerated are
  readable, and \<open>humanize.naturaltime\<close> does not raise.
\<close>

theorem main_proceeds_when_rate_check_fails:
  assumes "status (get_rate s rate_limit_url) \<noteq> 200"
  shows "check_rate_limit e s = Inr (False, [Get rate_limit_url])
         \<and> main e s = enumerate_and_report e s orgs [Get rate_limit_url]
         \<and> (\<forall>log. main e s = Some (Inr log) \<longrightarrow>
               (\<exists>rest. log = Get rate_limit_url # Get (members_url ''binder-examples'' 1) # rest)
               \<and> (\<forall>org \<in> set orgs. \<exists>ms lg.
                     get_org_members s org = Some (ms, lg) \<and> set lg \<subseteq> set log
                     \<and> (\<forall>m \<in> set ms. Get (events_url (login m)) \<in> set log))
               \<and> (\<forall>org \<in> set orgs. \<forall>ms lg m ev evs.
                     get_org_members s org = Some (ms, lg) \<and> m \<in> set ms
                     \<and> status (get_events s (events_url (login m))) = 200
                     \<and> json (get_events s (events_url (login m))) = ev # evs \<longrightarrow>
                     (\<exists>t os line.
                         fromisoformat e (str_replace CHR ''Z'' ''+00:00'' (created_at ev)) = Inr t
                         \<and> activity_line e (login m, t, os) = Inr line
                         \<and> org \<in> set os \<and> Print line \<in> set log)))
         \<and> ((\<forall>org \<in> set orgs. get_org_members s org \<noteq> None)
              \<and> (\<forall>org \<in> set orgs. \<forall>ms lg. get_org_members s org = Some (ms, lg) \<longrightarrow>
                     (\<forall>m \<in> set ms. events_readable e s (login m)))
              \<and> (\<forall>delta. \<exists>str. naturaltime e delta = Inr str)
             \<longrightarrow> (\<exists>log. main e s = Some (Inr log)))"
proof -
  let ?ms = "\<lambda>org. fst (the (get_org_members s org))"
  let ?lg = "\<lambda>org. snd (the (get_org_members s org))"
  have c: "check_rate_limit e s = Inr (False, [Get rate_limit_url])"
    using assms by (simp add: check_rate_limit_def Let_def)
  then have m: "main e s = enumerate_and_report e s orgs [Get rate_limit_url]"
    by (simp add: main_def)
  have first: "orgs \<noteq> []" "hd orgs = ''binder-examples''"
    by (simp_all add: orgs_def)

  have returned:
    "(\<exists>rest. log = Get rate_limit_url # Get (members_url ''binder-examples'' 1) # rest)
     \<and> (\<forall>org \<in> set orgs. \<exists>ms lg.
           get_org_members s org = Some (ms, lg) \<and> set lg \<subseteq> set log
           \<and> (\<forall>m \<in> set ms. Get (events_url (login m)) \<in> set log))
     \<and> (\<forall>org \<in> set orgs. \<forall>ms lg m ev evs.
           get_org_members s org = Some (ms, lg) \<and> m \<in> set ms
           \<and> status (get_events s (events_url (login m))) = 200
           \<and> json (get_events s (events_url (login m))) = ev # evs \<longrightarrow>
           (\<exists>t os line.
               fromisoformat e (str_replace CHR ''Z'' ''+00:00'' (created_at ev)) = Inr t
               \<and> activity_line e (login m, t, os) = Inr line
               \<and> org \<in> set os \<and> Print line \<in> set log))"
    if ret: "main e s = Some (Inr log)" for log
    using ret
  proof (cases rule: main_cases)
    case abort
    with c show ?thesis by simp
  next
    case (report log0 d log1 acts entries lines)
    from report(1) c have log0: "log0 = [Get rate_limit_url]" by simp
    from all_members_loop_log [OF report(2)] first obtain r where
      log1: "log1 = log0 @ Get (members_url ''binder-examples'' 1) # r"
      by auto
    have sub1: "set log1 \<subseteq> set log"
      unfolding report(7) by auto
    have gets: "Get (events_url u) \<in> set log" if "u \<in> fst ` set d" for u
    proof -
      from that have "Get (events_url u) \<in> set (map (\<lambda>x. Get (events_url (fst x))) d)"
        by auto
      then show ?thesis unfolding report(7) by simp
    qed
    have prints: "Print line \<in> set log" if "line \<in> set lines" for line
      using that unfolding report(7) by simp
    note enum = all_members_loop_enumerated [OF report(2)]
    have keys: "login m \<in> fst ` set d"
      if "org \<in> set orgs" "get_org_members s org = Some (ms, lg)" "m \<in> set ms" for org ms lg m
      using all_members_loop_keys [OF report(2), THEN conjunct2, THEN spec, of "login m"] that
      by auto
    have all: "\<forall>org \<in> set orgs. get_org_members s org = Some (?ms org, ?lg org)"
      using enum by auto
    from all_members_loop_Some [OF all, of "[]" log0] report(2)
    have orgs_of: "orgs_of d u = memberships ?ms orgs u" for u
      by (auto simp: orgs_of_def)
    have acts: "acts = concat (map (\<lambda>u. case get_user_activity e s u of
                                         Inr (Some t) \<Rightarrow> [(u, t, orgs_of d u)] | _ \<Rightarrow> [])
                               (map fst d))"
      using user_activities_of_InrD [OF report(3)] by (rule conjunct2)
    have results: "\<exists>r. get_user_activity e s u = Inr r" if "u \<in> fst ` set d" for u
      using user_activities_of_InrD [OF report(3), THEN conjunct1] that by blast
    have entries: "set entries = set acts"
      unfolding sorted_by_activity_InrD [OF report(4)] by simp

    have 1: "\<exists>rest. log = Get rate_limit_url # Get (members_url ''binder-examples'' 1) # rest"
      unfolding report(7) log1 log0 by simp
    have 2: "\<forall>org \<in> set orgs. \<exists>ms lg.
           get_org_members s org = Some (ms, lg) \<and> set lg \<subseteq> set log
           \<and> (\<forall>m \<in> set ms. Get (events_url (login m)) \<in> set log)"
    proof
      fix org assume org: "org \<in> set orgs"
      with enum obtain ms lg where
        g: "get_org_members s org = Some (ms, lg)" and lg: "set lg \<subseteq> set log1"
        by blast
      have "\<forall>m \<in> set ms. Get (events_url (login m)) \<in> set log"
        using keys [OF org g] gets by blast
      with g lg sub1 show "\<exists>ms lg.
           get_org_members s org = Some (ms, lg) \<and> set lg \<subseteq> set log
           \<and> (\<forall>m \<in> set ms. Get (events_url (login m)) \<in> set log)"
        by blast
    qed
    have 3: "\<exists>t os line.
               fromisoformat e (str_replace CHR ''Z'' ''+00:00'' (created_at ev)) = Inr t
               \<and> activity_line e (login m, t, os) = Inr line
               \<and> org \<in> set os \<and> Print line \<in> set log"
      if org: "org \<in> set orgs" and g: "get_org_members s org = Some (ms, lg)" and mem: "m \<in> set ms"
        and st: "status (get_events s (events_url (login m))) = 200"
        and js: "json (get_events s (events_url (login m))) = ev # evs"
      for org ms lg m ev evs
    proof -
      have key: "login m \<in> fst ` set d"
        using org g mem by (rule keys)
      from results [OF key] obtain r where r: "get_user_activity e s (login m) = Inr r"
        by blast
      have "get_user_activity e s (login m) =
          (case fromisoformat e (str_replace CHR ''Z'' ''+00:00'' (created_at ev)) of
             Inl err \<Rightarrow> Inl err | Inr dt \<Rightarrow> Inr (Some dt))"
        using st js by (simp add: get_user_activity_def Let_def)
      with r obtain t where
        t: "fromisoformat e (str_replace CHR ''Z'' ''+00:00'' (created_at ev)) = Inr t"
        and rt: "get_user_activity e s (login m) = Inr (Some t)"
        by (auto split: sum.splits)
      have "login m \<in> set (map fst d)"
        using key by simp
      then have "(login m, t, orgs_of d (login m)) \<in> set acts"
        unfolding acts using rt by (rule activities_intro)
      then have "(login m, t, orgs_of d (login m)) \<in> set entries"
        using entries by simp
      from printed_line [OF report(6) this] obtain line where
        line: "activity_line e (login m, t, orgs_of d (login m)) = Inr line" "line \<in> set lines"
        by blast
      have "org \<in> set (memberships ?ms orgs (login m))"
        unfolding set_memberships using org g mem by auto
      then have "org \<in> set (orgs_of d (login m))"
        by (simp add: orgs_of)
      with t line(1) prints [OF line(2)] show ?thesis by blast
    qed
    from 1 2 3 show ?thesis by blast
  qed

  have total: "\<exists>log. main e s = Some (Inr log)"
    if en: "\<forall>org \<in> set orgs. get_org_members s org \<noteq> None"
      and rd: "\<forall>org \<in> set orgs. \<forall>ms lg. get_org_members s org = Some (ms, lg) \<longrightarrow>
                     (\<forall>m \<in> set ms. events_readable e s (login m))"
      and nt: "\<forall>delta. \<exists>str. naturaltime e delta = Inr str"
  proof -
    have all: "\<forall>org \<in> set orgs. get_org_members s org = Some (?ms org, ?lg org)"
      using en by auto
    from all_members_loop_Some [OF all, of "[]" "[Get rate_limit_url]"] obtain d where
      d: "all_members_loop s orgs [] [Get rate_limit_url]
            = Some (d, [Get rate_limit_url] @ concat (map ?lg orgs))"
      and "\<forall>u. orgs_of d u = orgs_of [] u @ memberships ?ms orgs u"
      and "distinct (map fst ([] :: members_dict)) \<longrightarrow> distinct (map fst d)"
      and "nonempty_entries [] \<longrightarrow> nonempty_entries d"
      and dk: "fst ` set d = fst ` set ([] :: members_dict)
                  \<union> (\<Union>org \<in> set orgs. login ` set (?ms org))"
      by (elim exE conjE)
    have readable: "events_readable e s u" if "u \<in> fst ` set d" for u
    proof -
      from that dk obtain org m where "org \<in> set orgs" "m \<in> set (?ms org)" "u = login m"
        by auto
      with all rd show ?thesis by blast
    qed
    have res: "get_user_activity e s u = Inr None
         \<or> (\<exists>t. get_user_activity e s u = Inr (Some t) \<and> aware t)" if "u \<in> fst ` set d" for u
      using readable [OF that] by (rule events_readable_result)
    have "\<forall>u \<in> fst ` set d. \<exists>r. get_user_activity e s u = Inr r"
      using res by blast
    then obtain acts where acts: "user_activities_of e s d = Inr acts"
      using user_activities_of_returns by blast
    have shape: "acts = concat (map (\<lambda>u. case get_user_activity e s u of
                                         Inr (Some t) \<Rightarrow> [(u, t, orgs_of d u)] | _ \<Rightarrow> [])
                               (map fst d))"
      using user_activities_of_InrD [OF acts] by (rule conjunct2)
    have "aware (fst (snd x))" if "x \<in> set acts" for x
    proof -
      from that obtain u t where
        x: "x = (u, t, orgs_of d u)" "u \<in> set (map fst d)" "get_user_activity e s u = Inr (Some t)"
        unfolding shape by (blast dest: activities_elem)
      from x(2) have "u \<in> fst ` set d" by simp
      from res [OF this] x(3) have "aware t" by auto
      with x(1) show ?thesis by simp
    qed
    then have "list_all (\<lambda>x. aware (fst (snd x))) acts"
      by (simp add: list_all_iff)
    then obtain entries where entries: "sorted_by_activity acts = Inr entries"
      by (simp add: sorted_by_activity_def)
    have "\<forall>x \<in> set entries. \<exists>line. activity_line e x = Inr line"
    proof
      fix x assume "x \<in> set entries"
      from nt obtain str where "naturaltime e (time_since e (fst (snd x))) = Inr str"
        by blast
      then show "\<exists>line. activity_line e x = Inr line"
        by (rule activity_line_returns)
    qed
    then obtain log where
      "print_activities e entries
         (([Get rate_limit_url] @ concat (map ?lg orgs)) @ map (\<lambda>x. Get (events_url (fst x))) d)
       = Inr log"
      using print_activities_returns by blast
    with main_eq [OF c d acts entries] have "main e s = Some (Inr log)"
      by simp
    then show ?thesis by (rule exI)
  qed

  have 3: "\<forall>log. main e s = Some (Inr log) \<longrightarrow>
               (\<exists>rest. log = Get rate_limit_url # Get (members_url ''binder-examples'' 1) # rest)
               \<and> (\<forall>org \<in> set orgs. \<exists>ms lg.
                     get_org_members s org = Some (ms, lg) \<and> set lg \<subseteq> set log
                     \<and> (\<forall>m \<in> set ms. Get (events_url (login m)) \<in> set log))
               \<and> (\<forall>org \<in> set orgs. \<forall>ms lg m ev evs.
                     get_org_members s org = Some (ms, lg) \<and> m \<in> set ms
                     \<and> status (get_events s (events_url (login m))) = 200
                     \<and> json (get_events s (events_url (login m))) = ev # evs \<longrightarrow>
                     (\<exists>t os line.
                         fromisoformat e (str_replace CHR ''Z'' ''+00:00'' (created_at ev)) = Inr t
                         \<and> activity_line e (login m, t, os) = Inr line
                         \<and> org \<in> set os \<and> Print line \<in> set log))"
    by (intro allI impI) (rule returned)
  have 4: "(\<forall>org \<in> set orgs. get_org_members s org \<noteq> None)
              \<and> (\<forall>org \<in> set orgs. \<forall>ms lg. get_org_members s org = Some (ms, lg) \<longrightarrow>
                     (\<forall>m \<in> set ms. events_readable e s (login m)))
              \<and> (\<forall>delta. \<exists>str. naturaltime e delta = Inr str)
             \<longrightarrow> (\<exists>log. main e s = Some (Inr log))"
    using total by (intro impI) (elim conjE)
  from c m 3 4 show ?thesis by (intro conjI)
qed

theorem main_proceeds_when_rate_check_fails_witness:
  "status (get_rate rate_down_session rate_limit_url) \<noteq> 200
   \<and> check_rate_limit demo_env rate_down_session
        = Inr (False, [Get ''https://api.github.com/rate_limit''])
   \<and> main demo_env rate_down_session
        = Some (Inr (Get ''https://api.github.com/rate_limit'' # drop 3 demo_log))
   \<and> Get ''https://api.github.com/orgs/jupyterhub/members?page=2&per_page=100''
        \<in> set (drop 3 demo_log)
   \<and> Get ''https://api.github.com/users/bob/events/public'' \<in> set (drop 3 demo_log)
   \<and> Print ''bob                 : Last activity 59 days ago in orgs: ipython, jupyter''
        \<in> set (drop 3 demo_log)"
proof -
  have a: "status (get_rate rate_down_session rate_limit_url) \<noteq> 200" by code_simp
  have u: "rate_limit_url = ''https://api.github.com/rate_limit''"
    by (simp add: rate_limit_url_def)
  have b: "enumerate_and_report demo_env rate_down_session orgs [Get rate_limit_url]
        = Some (Inr (Get ''https://api.github.com/rate_limit'' # drop 3 demo_log))"
    by code_simp
  have c: "Get ''https://api.github.com/orgs/jupyterhub/members?page=2&per_page=100''
        \<in> set (drop 3 demo_log)"
    "Get ''https://api.github.com/users/bob/events/public'' \<in> set (drop 3 demo_log)"
    "Print ''bob                 : Last activity 59 days ago in orgs: ipython, jupyter''
        \<in> set (drop 3 demo_log)"
    by (simp_all add: demo_log_def)
  note t = main_proceeds_when_rate_check_fails [OF a, of demo_env]
  have m: "check_rate_limit demo_env rate_down_session = Inr (False, [Get rate_limit_url])"
    "main demo_env rate_down_session
        = enumerate_and_report demo_env rate_down_session orgs [Get rate_limit_url]"
    by (rule t [THEN conjunct1], rule t [THEN conjunct2, THEN conjunct1])
  have r: "main demo_env rate_down_session
        = Some (Inr (Get ''https://api.github.com/rate_limit'' # drop 3 demo_log))"
    using m(2) b by (rule trans)
  show ?thesis
    using a m(1) [unfolded u] r c by (intro conjI)
qed

subsection \<open>Timestamps\<close>

lemma str_replace_absent:
  "old \<notin> set ts \<Longrightarrow> str_replace old new ts = ts"
  by (induction ts) (auto simp: str_replace_def)

lemma str_replace_suffix:
  "old \<notin> set ts \<Longrightarrow> str_replace old new (ts @ [old]) = ts @ new"
  using str_replace_absent [of old ts new] by (simp add: str_replace_def)

lemma fromisoformat_utc:
  assumes "iso_datetime_shape ts" and "fromisoformat e ts = Inr dt"
  shows "fromisoformat e (ts @ ''+00:00'') = Inr (dt\<lparr>tzinfo := Some 0\<rparr>)"
proof -
  have len: "length ts = 19"
    using assms(1) by (simp add: iso_datetime_shape_def)
  have shape: "iso_offset_shape ''+00:00''" by code_simp
  have off: "parse_offset ''+00:00'' = 0" by code_simp
  have t: "take 19 (ts @ ''+00:00'') = ts" "drop 19 (ts @ ''+00:00'') = ''+00:00''"
    "take 19 ts = ts" "drop 19 ts = []"
    using len by simp_all
  from assms(2) show ?thesis
    unfolding fromisoformat_def Let_def t
    by (auto simp: shape off assms(1) split: if_splits)
qed

lemma fromisoformat_naive:
  assumes "iso_datetime_shape ts" and "fromisoformat e ts = Inr dt"
  shows "tzinfo dt = None"
proof -
  have len: "length ts = 19"
    using assms(1) by (simp add: iso_datetime_shape_def)
  have t: "take 19 ts = ts" "drop 19 ts = []"
    using len by simp_all
  from assms(2) show ?thesis
    unfolding fromisoformat_def Let_def t
    by (auto simp: assms(1) split: if_splits)
qed


lemma demo_report_run:
  "report_run demo_env demo_session demo_log demo_members demo_activities demo_entries"
  by code_simp

subsection \<open>Runs that report\<close>

lemma report_runD:
  assumes "report_run e s log d acts entries"
  obtains log0 log1 lines where
    "check_rate_limit e s = Inr (False, log0)"
    "all_members_loop s orgs [] log0 = Some (d, log1)"
    "user_activities_of e s d = Inr acts"
    "sorted_by_activity acts = Inr entries"
    "print_activities e entries (log1 @ map (\<lambda>x. Get (events_url (fst x))) d) = Inr log"
    "map (activity_line e) entries = map Inr lines"
    "log = log1 @ map (\<lambda>x. Get (events_url (fst x))) d @ map Print lines"
proof -
  from assms obtain log0 log1 where
    r: "check_rate_limit e s = Inr (False, log0)"
    "all_members_loop s orgs [] log0 = Some (d, log1)"
    "user_activities_of e s d = Inr acts"
    "sorted_by_activity acts = Inr entries"
    "print_activities e entries (log1 @ map (\<lambda>x. Get (events_url (fst x))) d) = Inr log"
    by (auto simp: report_run_def split: sum.splits option.splits bool.splits prod.splits)
  from print_activities_Inr [OF r(5)] obtain lines where
    l: "map (activity_line e) entries = map Inr lines"
    "log = (log1 @ map (\<lambda>x. Get (events_url (fst x))) d) @ map Print lines"
    by (elim exE conjE)
  from r l(1) show thesis
  proof (rule that)
    show "log = log1 @ map (\<lambda>x. Get (events_url (fst x))) d @ map Print lines"
      using l(2) by simp
  qed
qed

lemma report_runI:
  assumes "check_rate_limit e s = Inr (False, log0)"
    and "all_members_loop s orgs [] log0 = Some (d, log1)"
    and "user_activities_of e s d = Inr acts"
    and "sorted_by_activity acts = Inr entries"
    and "print_activities e entries (log1 @ map (\<lambda>x. Get (events_url (fst x))) d) = Inr log"
  shows "report_run e s log d acts entries"
  using assms by (simp add: report_run_def)

lemma report_run_main:
  assumes "report_run e s log d acts entries"
  shows "main e s = Some (Inr log)"
  using assms by (rule report_runD) (simp add: main_eq)

lemma main_returns:
  assumes "main e s = Some (Inr log)"
  shows "check_rate_limit e s = Inr (True, log) \<or> (\<exists>d acts entries. report_run e s log d acts entries)"
  using assms
proof (cases rule: main_cases)
  case abort
  then show ?thesis by simp
next
  case (report log0 d log1 acts entries lines)
  from report_runI [OF report(1-5)] show ?thesis
    by blast
qed

lemma report_run_entries:
  assumes "report_run e s log d acts entries"
  shows "entries = rev (sort_key (\<lambda>x. utc_micros (fst (snd x))) (rev acts))"
    and "acts = concat (map (\<lambda>u. case get_user_activity e s u of
                                   Inr (Some t) \<Rightarrow> [(u, t, orgs_of d u)] | _ \<Rightarrow> [])
                         (map fst d))"
    and "distinct (map fst d)"
proof -
  from assms obtain log0 log1 where
    r: "all_members_loop s orgs [] log0 = Some (d, log1)"
       "user_activities_of e s d = Inr acts"
       "sorted_by_activity acts = Inr entries"
    by (rule report_runD)
  show "entries = rev (sort_key (\<lambda>x. utc_micros (fst (snd x))) (rev acts))"
    using r(3) by (rule sorted_by_activity_InrD)
  show "acts = concat (map (\<lambda>u. case get_user_activity e s u of
                                   Inr (Some t) \<Rightarrow> [(u, t, orgs_of d u)] | _ \<Rightarrow> [])
                         (map fst d))"
    using user_activities_of_InrD [OF r(2)] by (rule conjunct2)
  show "distinct (map fst d)"
    using all_members_loop_keys [OF r(1)] by simp
qed

lemma demo_main:
  "main demo_env demo_session = Some (Inr demo_log)"
  using demo_report_run by (rule report_run_main)

subsection \<open>Claims about the activity of one user\<close>

lemma get_user_activity_None:
  assumes "status (get_events s (events_url u)) \<noteq> 200 \<or> json (get_events s (events_url u)) = []"
  shows "get_user_activity e s u = Inr None"
  using assms by (auto simp: get_user_activity_def Let_def)

text \<open>
  C5. When the events request for a username succeeds with an empty list, or does not
  succeed, \<open>get_user_activity\<close> returns \<open>None\<close>; and whenever \<open>main\<close> returns, either
  it stopped at the rate-limit check, where no line about any user is printed, or the
  entries whose lines it printed hold none for this username.
\<close>

theorem no_activity_no_line:
  assumes "status (get_events s (events_url u)) \<noteq> 200 \<or> json (get_events s (events_url u)) = []"
  shows "(\<forall>e. get_user_activity e s u = Inr None)
         \<and> (\<forall>e log. main e s = Some (Inr log) \<longrightarrow>
               check_rate_limit e s = Inr (True, log)
               \<or> (\<exists>d acts entries. report_run e s log d acts entries \<and> u \<notin> fst ` set entries))"
proof -
  have none: "get_user_activity e s u = Inr None" for e
    using assms by (rule get_user_activity_None)
  have key: "u \<notin> fst ` set entries" if "report_run e s log d acts entries"
    for e log d acts entries
  proof -
    note r = report_run_entries [OF that]
    have "map fst acts = filter (\<lambda>u. \<exists>t. get_user_activity e s u = Inr (Some t)) (map fst d)"
      unfolding r(2) by (rule fst_activities)
    then have "u \<notin> set (map fst acts)"
      using none by simp
    moreover have "set entries = set acts"
      unfolding r(1) by simp
    ultimately show ?thesis by simp
  qed
  have "check_rate_limit e s = Inr (True, log)
      \<or> (\<exists>d acts entries. report_run e s log d acts entries \<and> u \<notin> fst ` set entries)"
    if m: "main e s = Some (Inr log)" for e log
    using main_returns [OF m] key by blast
  then have "\<forall>e log. main e s = Some (Inr log) \<longrightarrow>
               check_rate_limit e s = Inr (True, log)
               \<or> (\<exists>d acts entries. report_run e s log d acts entries \<and> u \<notin> fst ` set entries)"
    by (intro allI impI)
  moreover have "\<forall>e. get_user_activity e s u = Inr None"
    by (intro allI) (rule none)
  ultimately show ?thesis by (intro conjI)
qed

theorem no_activity_no_line_witness:
  "status (get_events demo_session (events_url ''alice'')) = 200
   \<and> json (get_events demo_session (events_url ''alice'')) = []
   \<and> status (get_events demo_session (events_url ''carol'')) \<noteq> 200
   \<and> get_user_activity demo_env demo_session ''alice'' = Inr None
   \<and> get_user_activity demo_env demo_session ''carol'' = Inr None
   \<and> main demo_env demo_session = Some (Inr demo_log)
   \<and> (\<exists>d acts entries. report_run demo_env demo_session demo_log d acts entries
          \<and> ''alice'' \<notin> fst ` set entries)
   \<and> (\<exists>d acts entries. report_run demo_env demo_session demo_log d acts entries
          \<and> ''carol'' \<notin> fst ` set entries)"
proof -
  have a1: "status (get_events demo_session (events_url ''alice'')) = 200" by code_simp
  have a2: "json (get_events demo_session (events_url ''alice'')) = []" by code_simp
  have c1: "status (get_events demo_session (events_url ''carol'')) \<noteq> 200" by code_simp
  have a: "status (get_events demo_session (events_url ''alice'')) \<noteq> 200
      \<or> json (get_events demo_session (events_url ''alice'')) = []"
    using a2 by (rule disjI2)
  have c: "status (get_events demo_session (events_url ''carol'')) \<noteq> 200
      \<or> json (get_events demo_session (events_url ''carol'')) = []"
    using c1 by (rule disjI1)
  have n: "check_rate_limit demo_env demo_session \<noteq> Inr (True, demo_log)" by code_simp
  from no_activity_no_line [OF a] demo_main n
  have 1: "get_user_activity demo_env demo_session ''alice'' = Inr None"
    and 2: "\<exists>d acts entries. report_run demo_env demo_session demo_log d acts entries
          \<and> ''alice'' \<notin> fst ` set entries"
    by blast+
  from no_activity_no_line [OF c] demo_main n
  have 3: "get_user_activity demo_env demo_session ''carol'' = Inr None"
    and 4: "\<exists>d acts entries. report_run demo_env demo_session demo_log d acts entries
          \<and> ''carol'' \<notin> fst ` set entries"
    by blast+
  show ?thesis
    using a1 a2 c1 1 2 3 4 demo_main by (intro conjI)
qed

text \<open>
  C6. When the events request succeeds with a non-empty list, the result is computed from
  the \<open>created_at\<close> of the first event alone: it is what \<open>fromisoformat\<close> makes of that
  string once every \<open>Z\<close> in it, trailing or not, is replaced by \<open>+00:00\<close>, and it is the
  same whatever the later events are (no maximum is taken). When that string is a string
  \<open>ts\<close> of the form \<open>YYYY-MM-DD?HH:MM:SS\<close> without \<open>Z\<close> that reads as the date and
  time \<open>dt\<close>, followed by one \<open>Z\<close>, the string parsed is \<open>ts\<close> followed by \<open>+00:00\<close>
  and the result is \<open>dt\<close> as an aware value with offset zero, which denotes the instant
  \<open>dt\<close> in UTC. When that string has the form \<open>YYYY-MM-DD?HH:MM:SS\<close> and no \<open>Z\<close> at
  all, a value returned is naive, not aware.
\<close>

theorem get_user_activity_first_event:
  assumes "status (get_events s (events_url u)) = 200"
    and "json (get_events s (events_url u)) = ev # evs"
  shows "get_user_activity e s u =
           (case fromisoformat e (str_replace CHR ''Z'' ''+00:00'' (created_at ev)) of
              Inl err \<Rightarrow> Inl err
            | Inr dt \<Rightarrow> Inr (Some dt))
         \<and> (\<forall>s' evs'. status (get_events s' (events_url u)) = 200
                      \<and> json (get_events s' (events_url u)) = ev # evs' \<longrightarrow>
               get_user_activity e s' u = get_user_activity e s u)
         \<and> (\<forall>ts dt. created_at ev = ts @ ''Z'' \<and> iso_datetime_shape ts \<and> CHR ''Z'' \<notin> set ts
                      \<and> fromisoformat e ts = Inr dt \<longrightarrow>
               str_replace CHR ''Z'' ''+00:00'' (created_at ev) = ts @ ''+00:00''
               \<and> get_user_activity e s u = Inr (Some (dt\<lparr>tzinfo := Some 0\<rparr>))
               \<and> aware (dt\<lparr>tzinfo := Some 0\<rparr>)
               \<and> utc_micros (dt\<lparr>tzinfo := Some 0\<rparr>) = wall_micros dt)
         \<and> (iso_datetime_shape (created_at ev) \<and> CHR ''Z'' \<notin> set (created_at ev) \<longrightarrow>
               get_user_activity e s u
                 = (case fromisoformat e (created_at ev) of
                      Inl err \<Rightarrow> Inl err
                    | Inr dt \<Rightarrow> Inr (Some dt))
               \<and> (\<forall>dt. get_user_activity e s u = Inr (Some dt) \<longrightarrow> \<not> aware dt))"
proof -
  have first: "get_user_activity e s' u =
           (case fromisoformat e (str_replace CHR ''Z'' ''+00:00'' (created_at ev)) of
              Inl err \<Rightarrow> Inl err
            | Inr dt \<Rightarrow> Inr (Some dt))"
    if "status (get_events s' (events_url u)) = 200"
      and "json (get_events s' (events_url u)) = ev # evs'" for s' evs'
    using that by (simp add: get_user_activity_def Let_def)
  note here = first [OF assms]
  have others: "\<forall>s' evs'. status (get_events s' (events_url u)) = 200
                      \<and> json (get_events s' (events_url u)) = ev # evs' \<longrightarrow>
               get_user_activity e s' u = get_user_activity e s u"
    using first here by simp
  have "str_replace CHR ''Z'' ''+00:00'' (created_at ev) = ts @ ''+00:00''
        \<and> get_user_activity e s u = Inr (Some (dt\<lparr>tzinfo := Some 0\<rparr>))
        \<and> aware (dt\<lparr>tzinfo := Some 0\<rparr>)
        \<and> utc_micros (dt\<lparr>tzinfo := Some 0\<rparr>) = wall_micros dt"
    if h: "created_at ev = ts @ ''Z''" "iso_datetime_shape ts" "CHR ''Z'' \<notin> set ts"
      "fromisoformat e ts = Inr dt" for ts dt
  proof -
    have r: "str_replace CHR ''Z'' ''+00:00'' (created_at ev) = ts @ ''+00:00''"
      unfolding h(1) using h(3) by (rule str_replace_suffix)
    have p: "fromisoformat e (ts @ ''+00:00'') = Inr (dt\<lparr>tzinfo := Some 0\<rparr>)"
      using h(2,4) by (rule fromisoformat_utc)
    have "get_user_activity e s u = Inr (Some (dt\<lparr>tzinfo := Some 0\<rparr>))"
      unfolding here r p by simp
    moreover have "aware (dt\<lparr>tzinfo := Some 0\<rparr>)"
      by (simp add: aware_def)
    moreover have "utc_micros (dt\<lparr>tzinfo := Some 0\<rparr>) = wall_micros dt"
      by (simp add: utc_micros_def wall_micros_def toordinal_def)
    ultimately show ?thesis
      using r by simp
  qed
  then have trailing: "\<forall>ts dt. created_at ev = ts @ ''Z'' \<and> iso_datetime_shape ts
                      \<and> CHR ''Z'' \<notin> set ts \<and> fromisoformat e ts = Inr dt \<longrightarrow>
               str_replace CHR ''Z'' ''+00:00'' (created_at ev) = ts @ ''+00:00''
               \<and> get_user_activity e s u = Inr (Some (dt\<lparr>tzinfo := Some 0\<rparr>))
               \<and> aware (dt\<lparr>tzinfo := Some 0\<rparr>)
               \<and> utc_micros (dt\<lparr>tzinfo := Some 0\<rparr>) = wall_micros dt"
    by (intro allI impI) (elim conjE)
  have "get_user_activity e s u
          = (case fromisoformat e (created_at ev) of
               Inl err \<Rightarrow> Inl err
             | Inr dt \<Rightarrow> Inr (Some dt))
        \<and> (\<forall>dt. get_user_activity e s u = Inr (Some dt) \<longrightarrow> \<not> aware dt)"
    if h: "iso_datetime_shape (created_at ev)" "CHR ''Z'' \<notin> set (created_at ev)"
  proof -
    have r: "str_replace CHR ''Z'' ''+00:00'' (created_at ev) = created_at ev"
      using h(2) by (rule str_replace_absent)
    have g: "get_user_activity e s u
          = (case fromisoformat e (created_at ev) of
               Inl err \<Rightarrow> Inl err
             | Inr dt \<Rightarrow> Inr (Some dt))"
      using here unfolding r .
    have "\<not> aware dt" if "get_user_activity e s u = Inr (Some dt)" for dt
    proof -
      from that g have "fromisoformat e (created_at ev) = Inr dt"
        by (simp split: sum.splits)
      with h(1) have "tzinfo dt = None"
        by (rule fromisoformat_naive)
      then show ?thesis by (simp add: aware_def)
    qed
    with g show ?thesis by simp
  qed
  then have naive: "iso_datetime_shape (created_at ev) \<and> CHR ''Z'' \<notin> set (created_at ev) \<longrightarrow>
               get_user_activity e s u
                 = (case fromisoformat e (created_at ev) of
                      Inl err \<Rightarrow> Inl err
                    | Inr dt \<Rightarrow> Inr (Some dt))
               \<and> (\<forall>dt. get_user_activity e s u = Inr (Some dt) \<longrightarrow> \<not> aware dt)"
    by (intro impI) (elim conjE)
  from here others trailing naive show ?thesis
    by (intro conjI)
qed

theorem get_user_activity_first_event_witness:
  "status (get_events demo_session (events_url ''bob'')) = 200
   \<and> json (get_events demo_session (events_url ''bob''))
       = [Event ''2024-01-02T03:04:05Z'', Event ''2024-02-20T10:00:00Z'']
   \<and> get_user_activity demo_env demo_session ''bob'' = Inr (Some (utc_datetime 2024 1 2 3 4 5))
   \<and> get_user_activity demo_env demo_session ''bob'' \<noteq> Inr (Some (utc_datetime 2024 2 20 10 0 0))
   \<and> aware (utc_datetime 2024 1 2 3 4 5)"
proof -
  let ?dt = "\<lparr>year = 2024, month = 1, day = 2, hour = 3, minute = 4, second = 5,
              microsecond = 0, tzinfo = None\<rparr>"
  have a: "status (get_events demo_session (events_url ''bob'')) = 200" by code_simp
  have b: "json (get_events demo_session (events_url ''bob''))
       = [Event ''2024-01-02T03:04:05Z'', Event ''2024-02-20T10:00:00Z'']" by code_simp
  have c: "created_at (Event ''2024-01-02T03:04:05Z'') = ''2024-01-02T03:04:05'' @ ''Z''
      \<and> iso_datetime_shape ''2024-01-02T03:04:05'' \<and> CHR ''Z'' \<notin> set ''2024-01-02T03:04:05''
      \<and> fromisoformat demo_env ''2024-01-02T03:04:05'' = Inr ?dt"
    by code_simp
  have d: "?dt\<lparr>tzinfo := Some 0\<rparr> = utc_datetime 2024 1 2 3 4 5"
    by (simp add: utc_datetime_def)
  have n: "utc_datetime 2024 1 2 3 4 5 \<noteq> utc_datetime 2024 2 20 10 0 0"
    by (simp add: utc_datetime_def)
  from get_user_activity_first_event [OF a b, of demo_env]
  have "\<forall>ts dt. created_at (Event ''2024-01-02T03:04:05Z'') = ts @ ''Z'' \<and> iso_datetime_shape ts
                      \<and> CHR ''Z'' \<notin> set ts \<and> fromisoformat demo_env ts = Inr dt \<longrightarrow>
               str_replace CHR ''Z'' ''+00:00'' (created_at (Event ''2024-01-02T03:04:05Z''))
                 = ts @ ''+00:00''
               \<and> get_user_activity demo_env demo_session ''bob''
                   = Inr (Some (dt\<lparr>tzinfo := Some 0\<rparr>))
               \<and> aware (dt\<lparr>tzinfo := Some 0\<rparr>)
               \<and> utc_micros (dt\<lparr>tzinfo := Some 0\<rparr>) = wall_micros dt"
    by (elim conjE)
  note t = this [THEN spec, THEN spec, THEN mp, OF c]
  have r: "get_user_activity demo_env demo_session ''bob'' = Inr (Some (?dt\<lparr>tzinfo := Some 0\<rparr>))"
    "aware (?dt\<lparr>tzinfo := Some 0\<rparr>)"
    by (rule t [THEN conjunct2, THEN conjunct1],
        rule t [THEN conjunct2, THEN conjunct2, THEN conjunct1])
  have r': "get_user_activity demo_env demo_session ''bob''
              \<noteq> Inr (Some (utc_datetime 2024 2 20 10 0 0))"
    using r(1) n unfolding d by simp
  show ?thesis
    using a b r r' unfolding d by (intro conjI)
qed

theorem get_user_activity_naive_counterexample:
  "status (get_events naive_session (events_url ''bob'')) = 200
   \<and> json (get_events naive_session (events_url ''bob'')) = [Event ''2024-01-02T03:04:05'']
   \<and> get_user_activity demo_env naive_session ''bob''
       = Inr (Some \<lparr>year = 2024, month = 1, day = 2, hour = 3, minute = 4, second = 5,
                    microsecond = 0, tzinfo = None\<rparr>)
   \<and> \<not> aware \<lparr>year = 2024, month = 1, day = 2, hour = 3, minute = 4, second = 5,
               microsecond = 0, tzinfo = None\<rparr>"
  by code_simp

subsection \<open>Claims about the report\<close>

lemma report_run_unique:
  assumes "report_run e s log d acts entries" and "report_run e s log' d' acts' entries'"
  shows "log' = log \<and> d' = d \<and> acts' = acts \<and> entries' = entries"
proof -
  from assms(1) obtain log0 log1 lines where
    1: "check_rate_limit e s = Inr (False, log0)"
       "all_members_loop s orgs [] log0 = Some (d, log1)"
       "user_activities_of e s d = Inr acts"
       "sorted_by_activity acts = Inr entries"
       "print_activities e entries (log1 @ map (\<lambda>x. Get (events_url (fst x))) d) = Inr log"
    by (rule report_runD)
  from assms(2) obtain log0' log1' lines' where
    2: "check_rate_limit e s = Inr (False, log0')"
       "all_members_loop s orgs [] log0' = Some (d', log1')"
       "user_activities_of e s d' = Inr acts'"
       "sorted_by_activity acts' = Inr entries'"
       "print_activities e entries' (log1' @ map (\<lambda>x. Get (events_url (fst x))) d') = Inr log'"
    by (rule report_runD)
  from 1(1) 2(1) have "log0' = log0" by simp
  with 1(2) 2(2) have "d' = d" "log1' = log1" by simp_all
  with 1(3) 2(3) have "acts' = acts" by simp
  with 1(4) 2(4) have "entries' = entries" by simp
  with 1(5) 2(5) \<open>d' = d\<close> \<open>log1' = log1\<close> \<open>acts' = acts\<close> show ?thesis by simp
qed

text \<open>
  C7. Whenever \<open>main\<close> returns after the rate-limit check let it pass, the entries whose
  lines it prints, in the order printed, have timestamps that never increase from one line
  to the next, and entries of equal timestamp stand in the order they have in
  \<open>user_activities\<close>; that list holds the usernames with an activity in the order in
  which the mapping is iterated; and the log ends with the events requests followed by the
  lines of these entries, one for each, in this order. (A run that stops at the check
  prints no such line.)
\<close>

theorem report_sorted_by_activity:
  assumes "main e s = Some (Inr log)"
  shows "check_rate_limit e s = Inr (True, log)
         \<or> (\<exists>d acts entries. report_run e s log d acts entries
               \<and> sorted_wrt (\<lambda>a b. utc_micros (fst (snd b)) \<le> utc_micros (fst (snd a))) entries
               \<and> (\<forall>k. filter (\<lambda>x. utc_micros (fst (snd x)) = k) entries
                          = filter (\<lambda>x. utc_micros (fst (snd x)) = k) acts)
               \<and> map fst acts
                   = filter (\<lambda>u. \<exists>t. get_user_activity e s u = Inr (Some t)) (map fst d)
               \<and> (\<exists>pre lines. map (activity_line e) entries = map Inr lines
                      \<and> log = pre @ map (\<lambda>x. Get (events_url (fst x))) d @ map Print lines))"
  using assms
proof (cases rule: main_cases)
  case abort
  then show ?thesis by (rule disjI1)
next
  case (report log0 d log1 acts entries lines)
  have run: "report_run e s log d acts entries"
    by (rule report_runI [OF report(1-5)])
  note r = report_run_entries [OF run]
  have 1: "sorted_wrt (\<lambda>a b. utc_micros (fst (snd b)) \<le> utc_micros (fst (snd a))) entries"
    unfolding r(1) by (rule rev_sort_key_rev_sorted)
  have "filter (\<lambda>x. utc_micros (fst (snd x)) = k) entries
      = filter (\<lambda>x. utc_micros (fst (snd x)) = k) acts" for k
    unfolding r(1) by (rule rev_sort_key_rev_stable)
  then have 2: "\<forall>k. filter (\<lambda>x. utc_micros (fst (snd x)) = k) entries
      = filter (\<lambda>x. utc_micros (fst (snd x)) = k) acts"
    by (intro allI)
  have 3: "map fst acts
      = filter (\<lambda>u. \<exists>t. get_user_activity e s u = Inr (Some t)) (map fst d)"
    unfolding r(2) by (rule fst_activities)
  from report(6,7)
  have 4: "\<exists>pre lines. map (activity_line e) entries = map Inr lines
      \<and> log = pre @ map (\<lambda>x. Get (events_url (fst x))) d @ map Print lines"
    by (intro exI conjI)
  from run 1 2 3 4
  have "report_run e s log d acts entries
               \<and> sorted_wrt (\<lambda>a b. utc_micros (fst (snd b)) \<le> utc_micros (fst (snd a))) entries
               \<and> (\<forall>k. filter (\<lambda>x. utc_micros (fst (snd x)) = k) entries
                          = filter (\<lambda>x. utc_micros (fst (snd x)) = k) acts)
               \<and> map fst acts
                   = filter (\<lambda>u. \<exists>t. get_user_activity e s u = Inr (Some t)) (map fst d)
               \<and> (\<exists>pre lines. map (activity_line e) entries = map Inr lines
                      \<and> log = pre @ map (\<lambda>x. Get (events_url (fst x))) d @ map Print lines)"
    by (intro conjI)
  then have "\<exists>d acts entries. report_run e s log d acts entries
               \<and> sorted_wrt (\<lambda>a b. utc_micros (fst (snd b)) \<le> utc_micros (fst (snd a))) entries
               \<and> (\<forall>k. filter (\<lambda>x. utc_micros (fst (snd x)) = k) entries
                          = filter (\<lambda>x. utc_micros (fst (snd x)) = k) acts)
               \<and> map fst acts
                   = filter (\<lambda>u. \<exists>t. get_user_activity e s u = Inr (Some t)) (map fst d)
               \<and> (\<exists>pre lines. map (activity_line e) entries = map Inr lines
                      \<and> log = pre @ map (\<lambda>x. Get (events_url (fst x))) d @ map Print lines)"
    by (intro exI)
  then show ?thesis by (rule disjI2)
qed

theorem report_sorted_by_activity_witness:
  "main demo_env demo_session = Some (Inr demo_log)
   \<and> report_run demo_env demo_session demo_log demo_members demo_activities demo_entries
   \<and> sorted_wrt (\<lambda>a b. utc_micros (fst (snd b)) \<le> utc_micros (fst (snd a))) demo_entries
   \<and> (\<forall>k. filter (\<lambda>x. utc_micros (fst (snd x)) = k) demo_entries
              = filter (\<lambda>x. utc_micros (fst (snd x)) = k) demo_activities)
   \<and> map fst demo_activities = [''bob'', ''dave'', ''erin'']
   \<and> map fst demo_entries = [''dave'', ''bob'', ''erin'']
   \<and> drop 29 demo_log
       = [Print ''dave                : Last activity 0 days ago in orgs: jupyter'',
          Print ''bob                 : Last activity 59 days ago in orgs: ipython, jupyter'',
          Print ''erin                : Last activity 59 days ago in orgs: jupyterhub'']"
proof -
  have n: "check_rate_limit demo_env demo_session \<noteq> Inr (True, demo_log)" by code_simp
  from report_sorted_by_activity [OF demo_main]
  have "\<exists>d acts entries. report_run demo_env demo_session demo_log d acts entries
      \<and> sorted_wrt (\<lambda>a b. utc_micros (fst (snd b)) \<le> utc_micros (fst (snd a))) entries
      \<and> (\<forall>k. filter (\<lambda>x. utc_micros (fst (snd x)) = k) entries
              = filter (\<lambda>x. utc_micros (fst (snd x)) = k) acts)"
  proof (rule disjE)
    assume "check_rate_limit demo_env demo_session = Inr (True, demo_log)"
    with n show ?thesis by (rule notE)
  next
    assume "\<exists>d acts entries. report_run demo_env demo_session demo_log d acts entries
               \<and> sorted_wrt (\<lambda>a b. utc_micros (fst (snd b)) \<le> utc_micros (fst (snd a))) entries
               \<and> (\<forall>k. filter (\<lambda>x. utc_micros (fst (snd x)) = k) entries
                          = filter (\<lambda>x. utc_micros (fst (snd x)) = k) acts)
               \<and> map fst acts
                   = filter (\<lambda>u. \<exists>t. get_user_activity demo_env demo_session u = Inr (Some t))
                       (map fst d)
               \<and> (\<exists>pre lines. map (activity_line demo_env) entries = map Inr lines
                      \<and> demo_log = pre @ map (\<lambda>x. Get (events_url (fst x))) d @ map Print lines)"
    then obtain d acts entries where
      "report_run demo_env demo_session demo_log d acts entries"
      "sorted_wrt (\<lambda>a b. utc_micros (fst (snd b)) \<le> utc_micros (fst (snd a))) entries"
      "\<forall>k. filter (\<lambda>x. utc_micros (fst (snd x)) = k) entries
              = filter (\<lambda>x. utc_micros (fst (snd x)) = k) acts"
      by (elim exE conjE)
    then show ?thesis by (intro exI conjI)
  qed
  then obtain d acts entries where
    r: "report_run demo_env demo_session demo_log d acts entries"
    and p: "sorted_wrt (\<lambda>a b. utc_micros (fst (snd b)) \<le> utc_micros (fst (snd a))) entries"
      "\<forall>k. filter (\<lambda>x. utc_micros (fst (snd x)) = k) entries
              = filter (\<lambda>x. utc_micros (fst (snd x)) = k) acts"
    by (elim exE conjE)
  from report_run_unique [OF demo_report_run r]
  have "acts = demo_activities" "entries = demo_entries" by simp_all
  with p have "sorted_wrt (\<lambda>a b. utc_micros (fst (snd b)) \<le> utc_micros (fst (snd a))) demo_entries"
    "\<forall>k. filter (\<lambda>x. utc_micros (fst (snd x)) = k) demo_entries
              = filter (\<lambda>x. utc_micros (fst (snd x)) = k) demo_activities"
    by simp_all
  moreover have "map fst demo_activities = [''bob'', ''dave'', ''erin'']"
    "map fst demo_entries = [''dave'', ''bob'', ''erin'']"
    by (simp_all add: demo_activities_def demo_entries_def)
  moreover have "drop 29 demo_log
       = [Print ''dave                : Last activity 0 days ago in orgs: jupyter'',
          Print ''bob                 : Last activity 59 days ago in orgs: ipython, jupyter'',
          Print ''erin                : Last activity 59 days ago in orgs: jupyterhub'']"
    by (simp add: demo_log_def)
  ultimately show ?thesis
    using demo_main demo_report_run by (intro conjI)
qed

lemma count_list_distinct_if:
  "distinct xs \<Longrightarrow> count_list xs x = (if x \<in> set xs then 1 else 0)"
  by (induction xs) auto

lemma count_events_gets:
  "count_list (map (\<lambda>x. Get (events_url (fst x))) d) (Get (events_url u))
     = count_list (map fst d) u"
  by (induction d) (auto dest: events_url_inj)

lemma check_log_no_events:
  assumes "check_rate_limit e s = Inr (b, l)"
  shows "Get (events_url u) \<notin> set l"
proof -
  from check_rate_limit_log [OF assms] obtain r where
    r: "l = Get rate_limit_url # r" "\<forall>x \<in> set r. \<exists>t. x = Print t"
    by (elim exE conjE)
  have "Get (events_url u) \<notin> set r"
  proof
    assume "Get (events_url u) \<in> set r"
    with r(2) have "\<exists>t. Get (events_url u) = Print t" by (rule bspec)
    then show False by simp
  qed
  then show ?thesis
    unfolding r(1) using events_url_not_rate_limit_url [of u] by simp
qed

lemma all_members_log_no_events:
  assumes "check_rate_limit e s = Inr (False, log0)"
    and "all_members_loop s os [] log0 = Some (d, log1)"
  shows "Get (events_url u) \<notin> set log1"
proof -
  from all_members_loop_log [OF assms(2)] obtain r where
    r: "log1 = log0 @ r"
       "\<forall>x \<in> set r. (\<exists>org p. x = Get (members_url org p)) \<or> (\<exists>t. x = Print t)"
    by (elim exE conjE)
  have "Get (events_url u) \<notin> set log0"
    using assms(1) by (rule check_log_no_events)
  moreover have "Get (events_url u) \<notin> set r"
  proof
    assume "Get (events_url u) \<in> set r"
    with r(2) have "(\<exists>org p. Get (events_url u) = Get (members_url org p))
        \<or> (\<exists>t. Get (events_url u) = Print t)"
      by (rule bspec)
    then show False
      using events_url_not_members_url [of u] by simp
  qed
  ultimately show ?thesis
    unfolding r(1) by simp
qed

text \<open>
  C9. Whenever \<open>main\<close> returns after the rate-limit check let it pass, the keys of the
  mapping are distinct and are exactly the logins of the members enumerated for some
  configured organization; the log holds the events request of a username once if the
  username is a key and not at all otherwise; and the entries whose lines are printed have
  distinct usernames. (A run that stops at the check makes no events request.)
\<close>

theorem one_request_one_line_per_username:
  assumes "main e s = Some (Inr log)"
  shows "(check_rate_limit e s = Inr (True, log) \<and> (\<forall>u. count_list log (Get (events_url u)) = 0))
         \<or> (\<exists>d acts entries. report_run e s log d acts entries
               \<and> distinct (map fst d)
               \<and> (\<forall>u. u \<in> fst ` set d \<longleftrightarrow>
                        (\<exists>org \<in> set orgs. \<exists>ms lg.
                            get_org_members s org = Some (ms, lg) \<and> u \<in> login ` set ms))
               \<and> (\<forall>u. count_list log (Get (events_url u)) = (if u \<in> fst ` set d then 1 else 0))
               \<and> distinct (map fst entries))"
  using assms
proof (cases rule: main_cases)
  case abort
  have "count_list log (Get (events_url u)) = 0" for u
    using check_log_no_events [OF abort, of u] by simp
  then have "\<forall>u. count_list log (Get (events_url u)) = 0"
    by (intro allI)
  with abort have "check_rate_limit e s = Inr (True, log) \<and> (\<forall>u. count_list log (Get (events_url u)) = 0)"
    by (intro conjI)
  then show ?thesis by (rule disjI1)
next
  case (report log0 d log1 acts entries lines)
  have run: "report_run e s log d acts entries"
    by (rule report_runI [OF report(1-5)])
  note r = report_run_entries [OF run]
  have keys: "u \<in> fst ` set d \<longleftrightarrow>
     (\<exists>org \<in> set orgs. \<exists>ms lg. get_org_members s org = Some (ms, lg) \<and> u \<in> login ` set ms)" for u
    using all_members_loop_keys [OF report(2), THEN conjunct2, THEN spec, of u] by simp
  have count: "count_list log (Get (events_url u)) = (if u \<in> fst ` set d then 1 else 0)" for u
  proof -
    have "count_list log1 (Get (events_url u)) = 0"
      using all_members_log_no_events [OF report(1,2), of u] by simp
    moreover have "count_list (map Print lines) (Get (events_url u)) = 0"
      by (rule count_notin) auto
    moreover have "count_list (map (\<lambda>x. Get (events_url (fst x))) d) (Get (events_url u))
        = (if u \<in> fst ` set d then 1 else 0)"
      using count_list_distinct_if [OF r(3), of u] by (simp add: count_events_gets)
    ultimately show ?thesis
      unfolding report(7) by simp
  qed
  have "map fst acts = filter (\<lambda>u. \<exists>t. get_user_activity e s u = Inr (Some t)) (map fst d)"
    unfolding r(2) by (rule fst_activities)
  then have "distinct (map fst acts)"
    using r(3) by simp
  then have "distinct (map fst entries)"
    unfolding r(1) by (rule rev_sort_key_rev_fst)
  note dist = this
  have k: "\<forall>u. u \<in> fst ` set d \<longleftrightarrow>
     (\<exists>org \<in> set orgs. \<exists>ms lg. get_org_members s org = Some (ms, lg) \<and> u \<in> login ` set ms)"
    by (intro allI) (rule keys)
  have c: "\<forall>u. count_list log (Get (events_url u)) = (if u \<in> fst ` set d then 1 else 0)"
    by (intro allI) (rule count)
  from run r(3) k c dist
  have "\<exists>d acts entries. report_run e s log d acts entries
               \<and> distinct (map fst d)
               \<and> (\<forall>u. u \<in> fst ` set d \<longleftrightarrow>
                        (\<exists>org \<in> set orgs. \<exists>ms lg.
                            get_org_members s org = Some (ms, lg) \<and> u \<in> login ` set ms))
               \<and> (\<forall>u. count_list log (Get (events_url u)) = (if u \<in> fst ` set d then 1 else 0))
               \<and> distinct (map fst entries)"
    by (intro exI conjI)
  then show ?thesis by (rule disjI2)
qed

theorem one_request_one_line_per_username_witness:
  "main demo_env demo_session = Some (Inr demo_log)
   \<and> report_run demo_env demo_session demo_log demo_members demo_activities demo_entries
   \<and> distinct (map fst demo_members)
   \<and> count_list demo_log (Get (events_url ''bob'')) = 1
   \<and> count_list demo_log (Get (events_url ''zed'')) = 0
   \<and> distinct (map fst demo_entries)"
proof -
  have n: "check_rate_limit demo_env demo_session \<noteq> Inr (True, demo_log)" by code_simp
  from one_request_one_line_per_username [OF demo_main] obtain d acts entries where
    r: "report_run demo_env demo_session demo_log d acts entries"
    and p: "distinct (map fst d)"
      "\<forall>u. count_list demo_log (Get (events_url u)) = (if u \<in> fst ` set d then 1 else 0)"
      "distinct (map fst entries)"
  proof (elim disjE exE conjE)
    assume "check_rate_limit demo_env demo_session = Inr (True, demo_log)"
    with n show thesis by (rule notE)
  qed
  from report_run_unique [OF demo_report_run r]
  have e: "d = demo_members" "entries = demo_entries" by simp_all
  have k: "''bob'' \<in> fst ` set demo_members" "''zed'' \<notin> fst ` set demo_members"
    by (simp_all add: demo_members_def)
  show ?thesis
    using demo_main demo_report_run p k unfolding e by (intro conjI) simp_all
qed

subsection \<open>Claims about the run as a whole\<close>

text \<open>
  C10. The run is a function of the clock, the library and the platform, and of the
  platform it uses only the responses to the requests it makes: when \<open>main\<close> returns
  with a log against one platform, then against any platform that answers every request of
  that log in the same way, and with the same clock, it returns with the same log, so with
  the same lines in the same order.
\<close>

theorem main_determined_by_responses:
  assumes "main e s = Some (Inr log)"
    and "\<forall>url. Get url \<in> set log \<longrightarrow> same_responses s s' url"
  shows "main e s' = Some (Inr log)"
  using assms(1)
proof (cases rule: main_cases)
  case abort
  from check_rate_limit_log [OF abort] obtain r where
    "log = Get rate_limit_url # r"
    by (elim exE conjE)
  then have "Get rate_limit_url \<in> set log" by simp
  with assms(2) have "get_rate s' rate_limit_url = get_rate s rate_limit_url"
    by (simp add: same_responses_def)
  then have "check_rate_limit e s' = check_rate_limit e s"
    by (rule check_rate_limit_cong)
  with abort show ?thesis
    by (simp add: main_def)
next
  case (report log0 d log1 acts entries lines)
  from check_rate_limit_log [OF report(1)] obtain r where
    "log0 = Get rate_limit_url # r"
    by (elim exE conjE)
  then have in0: "Get rate_limit_url \<in> set log0" by simp
  from all_members_loop_log [OF report(2)] obtain r' where log1: "log1 = log0 @ r'"
    by (elim exE conjE)
  have sub1: "set log1 \<subseteq> set log"
    unfolding report(7) by auto
  have "Get rate_limit_url \<in> set log"
    using in0 sub1 unfolding log1 by auto
  with assms(2) have "get_rate s' rate_limit_url = get_rate s rate_limit_url"
    by (simp add: same_responses_def)
  then have "check_rate_limit e s' = check_rate_limit e s"
    by (rule check_rate_limit_cong)
  with report(1) have 1: "check_rate_limit e s' = Inr (False, log0)"
    by simp
  have "\<forall>url. Get url \<in> set log1 \<longrightarrow> get_members s' url = get_members s url"
    using assms(2) sub1 by (auto simp: same_responses_def)
  with report(2) have 2: "all_members_loop s' orgs [] log0 = Some (d, log1)"
    by (rule all_members_loop_cong)
  have "\<forall>u \<in> fst ` set d. get_events s' (events_url u) = get_events s (events_url u)"
  proof
    fix u assume "u \<in> fst ` set d"
    then have "Get (events_url u) \<in> set (map (\<lambda>x. Get (events_url (fst x))) d)"
      by auto
    then have "Get (events_url u) \<in> set log"
      unfolding report(7) by simp
    with assms(2) show "get_events s' (events_url u) = get_events s (events_url u)"
      by (simp add: same_responses_def)
  qed
  then have "user_activities_of e s' d = user_activities_of e s d"
    by (rule user_activities_of_cong)
  with report(3) have 3: "user_activities_of e s' d = Inr acts"
    by simp
  show ?thesis
    using main_eq [OF 1 2 3 report(4)] unfolding report(5) .
qed

lemma demo_other_same:
  "list_all (\<lambda>x. case x of Get url \<Rightarrow> same_responses demo_session other_session url
                          | Print t \<Rightarrow> True) demo_log"
  by code_simp

theorem main_determined_by_responses_witness:
  "get_members other_session (members_url ''ipython'' 4)
     \<noteq> get_members demo_session (members_url ''ipython'' 4)
   \<and> main demo_env demo_session = Some (Inr demo_log)
   \<and> main demo_env other_session = Some (Inr demo_log)"
proof -
  have d: "get_members other_session (members_url ''ipython'' 4)
     \<noteq> get_members demo_session (members_url ''ipython'' 4)" by code_simp
  have "\<forall>url. Get url \<in> set demo_log \<longrightarrow> same_responses demo_session other_session url"
  proof (intro allI impI)
    fix url assume "Get url \<in> set demo_log"
    with demo_other_same show "same_responses demo_session other_session url"
      by (auto simp: list_all_iff)
  qed
  with demo_main have "main demo_env other_session = Some (Inr demo_log)"
    by (rule main_determined_by_responses)
  with d demo_main show ?thesis by (intro conjI)
qed

end
